theory Spec2Isabelle
  imports Complex_Main
begin

section \<open>Values, errors and Python primitives\<close>

text \<open>
  A matrix entry is either a finite number or \<open>math.inf\<close>, the mark of a missing edge.
  Finite entries are reals; \<open>-inf\<close> and NaN are outside the model. What the sum of two
  entries is depends on the numbers the matrix holds (float64 or int64): \<open>ajout\<close> below is the
  exact sum, and the single-source routine is also given over any other addition
  (\<open>calculPCCSommet_avec\<close>).
\<close>

datatype poids = Fin real | Infini

datatype error = IndexError | ValueError | KeyError | ZeroDivisionError

type_synonym 'a result = "error + 'a"

text \<open>A vertex is a Python int; a valuation matrix is a list of rows.\<close>

type_synonym sommet = int
type_synonym matrice = "poids list list"

instantiation poids :: linorder
begin

fun less_eq_poids :: "poids \<Rightarrow> poids \<Rightarrow> bool" where
  "less_eq_poids (Fin a) (Fin b) = (a \<le> b)"
| "less_eq_poids (Fin a) Infini = True"
| "less_eq_poids Infini (Fin b) = False"
| "less_eq_poids Infini Infini = True"

fun less_poids :: "poids \<Rightarrow> poids \<Rightarrow> bool" where
  "less_poids (Fin a) (Fin b) = (a < b)"
| "less_poids (Fin a) Infini = True"
| "less_poids Infini (Fin b) = False"
| "less_poids Infini Infini = False"

instance
proof
  fix x y z :: poids
  show "(x < y) = (x \<le> y \<and> \<not> y \<le> x)"
    by (cases x; cases y) auto
  show "x \<le> x"
    by (cases x) auto
  show "x \<le> y \<Longrightarrow> y \<le> z \<Longrightarrow> x \<le> z"
    by (cases x; cases y; cases z) auto
  show "x \<le> y \<Longrightarrow> y \<le> x \<Longrightarrow> x = y"
    by (cases x; cases y) auto
  show "x \<le> y \<or> y \<le> x"
    by (cases x; cases y) auto
qed

end

text \<open>The exact sum; with infinity, \<open>inf + x = inf\<close>.\<close>

fun ajout :: "poids \<Rightarrow> poids \<Rightarrow> poids" where
  "ajout (Fin a) (Fin b) = Fin (a + b)"
| "ajout _ _ = Infini"

text \<open>Sequencing of computations that may raise: the first exception ends the run.\<close>

definition res_bind :: "'a result \<Rightarrow> ('a \<Rightarrow> 'b result) \<Rightarrow> 'b result" where
  "res_bind m f = (case m of Inl e \<Rightarrow> Inl e | Inr x \<Rightarrow> f x)"

text \<open>
  \<open>xs[i]\<close>: an index in \<open>-len .. -1\<close> counts from the end, anything outside
  \<open>-len .. len-1\<close> raises IndexError.
\<close>

definition py_index :: "'a list \<Rightarrow> int \<Rightarrow> 'a result" where
  "py_index xs i =
     (if 0 \<le> i \<and> i < int (length xs) then Inr (xs ! nat i)
      else if i < 0 \<and> - int (length xs) \<le> i then Inr (xs ! nat (int (length xs) + i))
      else Inl IndexError)"

text \<open>\<open>xs[i] = v\<close>, with the same index rule.\<close>

definition py_update :: "'a list \<Rightarrow> int \<Rightarrow> 'a \<Rightarrow> 'a list result" where
  "py_update xs i v =
     (if 0 \<le> i \<and> i < int (length xs) then Inr (xs[nat i := v])
      else if i < 0 \<and> - int (length xs) \<le> i then Inr (xs[nat (int (length xs) + i) := v])
      else Inl IndexError)"

text \<open>\<open>range(n)\<close>.\<close>

definition py_range :: "nat \<Rightarrow> int list" where
  "py_range n = map int [0..<n]"

text \<open>A \<open>for\<close> loop over a sequence, threading the loop's variables.\<close>

fun boucle :: "('a \<Rightarrow> 's \<Rightarrow> 's result) \<Rightarrow> 'a list \<Rightarrow> 's \<Rightarrow> 's result" where
  "boucle f [] st = Inr st"
| "boucle f (x # xs) st = (case f x st of Inl e \<Rightarrow> Inl e | Inr st' \<Rightarrow> boucle f xs st')"

section \<open>GrapheValue\<close>

definition nb_sommets :: "matrice \<Rightarrow> nat" where
  "nb_sommets g = length g"

text \<open>\<open>self.matrice[i][j]\<close>.\<close>

definition entree :: "matrice \<Rightarrow> int \<Rightarrow> int \<Rightarrow> poids result" where
  "entree g i j = res_bind (py_index g i) (\<lambda>ligne. py_index ligne j)"

definition nb_aretes :: "matrice \<Rightarrow> real result" where
  "nb_aretes g =
     res_bind
       (boucle (\<lambda>i nb.
          res_bind (py_index g i) (\<lambda>ligne.
            boucle (\<lambda>j nb. res_bind (entree g i j) (\<lambda>w. Inr (if w \<noteq> Infini then nb + 1 else nb)))
              (py_range (length ligne)) nb))
          (py_range (length g)) (0::nat))
       (\<lambda>nb. Inr (real nb / 2))"

definition degre_sommet :: "matrice \<Rightarrow> sommet \<Rightarrow> nat result" where
  "degre_sommet g s =
     res_bind (py_index g s) (\<lambda>ligne.
       boucle (\<lambda>i deg. res_bind (entree g s i) (\<lambda>w. Inr (if w \<noteq> Infini then deg + 1 else deg)))
         (py_range (length ligne)) (0::nat))"

definition successeurs :: "matrice \<Rightarrow> sommet \<Rightarrow> sommet list result" where
  "successeurs g s =
     boucle (\<lambda>i succs. res_bind (entree g s i) (\<lambda>w. Inr (if w \<noteq> Infini then succs @ [i] else succs)))
       (py_range (nb_sommets g)) []"

definition predecesseurs :: "matrice \<Rightarrow> sommet \<Rightarrow> sommet list result" where
  "predecesseurs g s =
     boucle (\<lambda>i preds. res_bind (entree g i s) (\<lambda>w. Inr (if w \<noteq> Infini then preds @ [i] else preds)))
       (py_range (nb_sommets g)) []"

text \<open>The data model's invariant: an \<open>n \<times> n\<close> matrix.\<close>

definition carree :: "matrice \<Rightarrow> bool" where
  "carree g = (\<forall>ligne \<in> set g. length ligne = length g)"

section \<open>Basic facts\<close>

lemma res_bind_simps [simp]:
  "res_bind (Inl e) f = Inl e"
  "res_bind (Inr x) f = f x"
  by (simp_all add: res_bind_def)

lemma res_bind_cong [fundef_cong]:
  "m = m' \<Longrightarrow> (\<And>x. m' = Inr x \<Longrightarrow> f x = f' x) \<Longrightarrow> res_bind m f = res_bind m' f'"
  by (cases m') (simp_all add: res_bind_def)

lemma res_bind_eq_Inr:
  "res_bind m f = Inr y \<longleftrightarrow> (\<exists>x. m = Inr x \<and> f x = Inr y)"
  by (cases m) simp_all

lemma py_index_nat [simp]:
  "k < length xs \<Longrightarrow> py_index xs (int k) = Inr (xs ! k)"
  by (simp add: py_index_def)

lemma py_update_nat [simp]:
  "k < length xs \<Longrightarrow> py_update xs (int k) v = Inr (xs[k := v])"
  by (simp add: py_update_def)

lemma py_index_grand:
  "int (length xs) \<le> i \<Longrightarrow> py_index xs i = Inl IndexError"
  by (simp add: py_index_def)

lemma py_index_petit:
  "i < - int (length xs) \<Longrightarrow> py_index xs i = Inl IndexError"
  by (simp add: py_index_def)

lemma py_index_negatif:
  "- int (length xs) \<le> i \<Longrightarrow> i < 0 \<Longrightarrow> py_index xs i = py_index xs (int (length xs) + i)"
  by (simp add: py_index_def)

lemma boucle_append:
  "boucle f (xs @ ys) st = (case boucle f xs st of Inl e \<Rightarrow> Inl e | Inr st' \<Rightarrow> boucle f ys st')"
  by (induction xs arbitrary: st) (auto split: sum.splits)

lemma py_range_Suc: "py_range (Suc n) = py_range n @ [int n]"
  by (simp add: py_range_def)

lemma py_range_0 [simp]: "py_range 0 = []"
  by (simp add: py_range_def)

lemma set_py_range: "set (py_range n) = {i. 0 \<le> i \<and> i < int n}"
proof -
  have "i \<in> int ` {0..<n} \<longleftrightarrow> 0 \<le> i \<and> i < int n" for i
  proof
    assume "i \<in> int ` {0..<n}"
    then show "0 \<le> i \<and> i < int n" by auto
  next
    assume h: "0 \<le> i \<and> i < int n"
    then have "nat i \<in> {0..<n}" by auto
    moreover have "i = int (nat i)" using h by simp
    ultimately show "i \<in> int ` {0..<n}" by (rule rev_image_eqI)
  qed
  then show ?thesis by (auto simp: py_range_def)
qed

lemma boucle_ok:
  "boucle f xs st = Inr st' \<Longrightarrow> P st \<Longrightarrow>
   (\<And>x a b. x \<in> set xs \<Longrightarrow> P a \<Longrightarrow> f x a = Inr b \<Longrightarrow> P b) \<Longrightarrow> P st'"
proof (induction xs arbitrary: st)
  case Nil
  then show ?case by simp
next
  case (Cons x xs)
  from Cons.prems(1) obtain m where m: "f x st = Inr m" and r: "boucle f xs m = Inr st'"
    by (auto split: sum.splits)
  have "P m" using Cons.prems(2,3) m by auto
  then show ?case using Cons.IH [OF r] Cons.prems(3) by auto
qed

lemma boucle_total:
  "P st \<Longrightarrow> (\<And>x a. x \<in> set xs \<Longrightarrow> P a \<Longrightarrow> \<exists>b. f x a = Inr b \<and> P b) \<Longrightarrow>
   \<exists>st'. boucle f xs st = Inr st' \<and> P st'"
proof (induction xs arbitrary: st)
  case Nil
  then show ?case by simp
next
  case (Cons x xs)
  from Cons.prems obtain m where m: "f x st = Inr m" "P m"
    by (meson list.set_intros(1))
  have "\<exists>st'. boucle f xs m = Inr st' \<and> P st'"
    by (rule Cons.IH [OF m(2)]) (use Cons.prems(2) in auto)
  then show ?case using m by simp
qed

section \<open>GrapheValue: traversals and components\<close>

text \<open>
  A Python set of vertices is a HOL set. The inner loop of \<open>descendants\<close> and
  \<open>ascendants\<close>: every neighbour not yet marked is appended to the queue and marked.
\<close>

definition marquer :: "sommet list \<Rightarrow> sommet list \<times> sommet set \<Rightarrow> sommet list \<times> sommet set" where
  "marquer voisins st =
     fold (\<lambda>v (fil, vus). if v \<notin> vus then (fil @ [v], insert v vus) else (fil, vus)) voisins st"

lemma marquer_vus:
  "marquer vs (fil, vus) = (fil', vus') \<Longrightarrow>
     vus' = vus \<union> set vs \<and> (vus' = vus \<longrightarrow> fil' = fil)"
proof (induction vs arbitrary: fil vus)
  case Nil
  then show ?case by (simp add: marquer_def)
next
  case (Cons v vs)
  show ?case
  proof (cases "v \<in> vus")
    case True
    with Cons.prems have "marquer vs (fil, vus) = (fil', vus')"
      by (simp add: marquer_def)
    from Cons.IH [OF this] True show ?thesis by auto
  next
    case False
    with Cons.prems have "marquer vs (fil @ [v], insert v vus) = (fil', vus')"
      by (simp add: marquer_def)
    from Cons.IH [OF this] False show ?thesis by auto
  qed
qed

lemma successeurs_bornes:
  "successeurs g s = Inr succs \<Longrightarrow> set succs \<subseteq> {0..<int (length g)}"
  unfolding successeurs_def nb_sommets_def
  by (erule boucle_ok [where P = "\<lambda>l. set l \<subseteq> {0..<int (length g)}"])
     (auto simp: set_py_range res_bind_eq_Inr split: if_splits)

lemma predecesseurs_bornes:
  "predecesseurs g s = Inr preds \<Longrightarrow> set preds \<subseteq> {0..<int (length g)}"
  unfolding predecesseurs_def nb_sommets_def
  by (erule boucle_ok [where P = "\<lambda>l. set l \<subseteq> {0..<int (length g)}"])
     (auto simp: set_py_range res_bind_eq_Inr split: if_splits)

lemma marquer_mesure:
  assumes "marquer vs (fil, vus) = (fil', vus')" and "set vs \<subseteq> {0..<int n}"
  shows "((card ({0..<int n} - vus'), length fil'), (card ({0..<int n} - vus), Suc (length fil)))
           \<in> less_than <*lex*> less_than"
proof -
  from marquer_vus [OF assms(1)]
  have v: "vus' = vus \<union> set vs" and f: "vus' = vus \<longrightarrow> fil' = fil" by auto
  show ?thesis
  proof (cases "vus' = vus")
    case True
    with f show ?thesis by simp
  next
    case False
    with v obtain x where x: "x \<in> set vs" "x \<notin> vus" by auto
    have "{0..<int n} - vus' \<subset> {0..<int n} - vus"
      using v x assms(2) by auto
    then have "card ({0..<int n} - vus') < card ({0..<int n} - vus)"
      by (intro psubset_card_mono) auto
    then show ?thesis by simp
  qed
qed

function parcours_desc :: "matrice \<Rightarrow> sommet list \<Rightarrow> sommet set \<Rightarrow> sommet set result" where
  "parcours_desc g fil descs =
     (case fil of
        [] \<Rightarrow> Inr descs
      | scour # reste \<Rightarrow>
          (case successeurs g scour of
             Inl e \<Rightarrow> Inl e
           | Inr succs \<Rightarrow>
               (case marquer succs (reste, descs) of
                  (fil', descs') \<Rightarrow> parcours_desc g fil' descs')))"
  by pat_completeness auto
termination
proof (relation "inv_image (less_than <*lex*> less_than)
         (\<lambda>(g, fil, descs). (card ({0..<int (length g)} - descs), length fil))")
  show "wf (inv_image (less_than <*lex*> less_than)
         (\<lambda>(g, fil, descs). (card ({0..<int (length g)} - descs), length fil)))"
    by (intro wf_inv_image wf_lex_prod wf_less_than)
next
  fix g :: matrice and fil descs scour reste succs fil' descs'
  assume a: "fil = scour # reste" "successeurs g scour = Inr succs"
    "(fil', descs') = marquer succs (reste, descs)"
  have m: "marquer succs (reste, descs) = (fil', descs')"
    using a by simp
  show "((g, fil', descs'), (g, fil, descs)) \<in> inv_image (less_than <*lex*> less_than)
         (\<lambda>(g, fil, descs). (card ({0..<int (length g)} - descs), length fil))"
    using marquer_mesure [OF m, of "length g"] successeurs_bornes [OF a(2)] a(1)
    by simp
qed

definition descendants :: "matrice \<Rightarrow> sommet \<Rightarrow> sommet set result" where
  "descendants g s = parcours_desc g [s] {}"

function parcours_asc :: "matrice \<Rightarrow> sommet list \<Rightarrow> sommet set \<Rightarrow> sommet set result" where
  "parcours_asc g fil ascs =
     (case fil of
        [] \<Rightarrow> Inr ascs
      | scour # reste \<Rightarrow>
          (case predecesseurs g scour of
             Inl e \<Rightarrow> Inl e
           | Inr preds \<Rightarrow>
               (case marquer preds (reste, ascs) of
                  (fil', ascs') \<Rightarrow> parcours_asc g fil' ascs')))"
  by pat_completeness auto
termination
proof (relation "inv_image (less_than <*lex*> less_than)
         (\<lambda>(g, fil, ascs). (card ({0..<int (length g)} - ascs), length fil))")
  show "wf (inv_image (less_than <*lex*> less_than)
         (\<lambda>(g, fil, ascs). (card ({0..<int (length g)} - ascs), length fil)))"
    by (intro wf_inv_image wf_lex_prod wf_less_than)
next
  fix g :: matrice and fil ascs scour reste preds fil' ascs'
  assume a: "fil = scour # reste" "predecesseurs g scour = Inr preds"
    "(fil', ascs') = marquer preds (reste, ascs)"
  have m: "marquer preds (reste, ascs) = (fil', ascs')"
    using a by simp
  show "((g, fil', ascs'), (g, fil, ascs)) \<in> inv_image (less_than <*lex*> less_than)
         (\<lambda>(g, fil, ascs). (card ({0..<int (length g)} - ascs), length fil))"
    using marquer_mesure [OF m, of "length g"] predecesseurs_bornes [OF a(2)] a(1)
    by simp
qed

definition ascendants :: "matrice \<Rightarrow> sommet \<Rightarrow> sommet set result" where
  "ascendants g s = parcours_asc g [s] {}"

text \<open>\<open>cfc_sommet(g, s)\<close> works on the matrix it is handed, not on the receiver's.\<close>

definition cfc_sommet :: "matrice \<Rightarrow> sommet \<Rightarrow> sommet set result" where
  "cfc_sommet g s =
     res_bind (descendants g s) (\<lambda>descs.
       res_bind (ascendants g s) (\<lambda>ascs. Inr ((descs \<inter> ascs) \<union> {s})))"

definition graphe_vide :: "nat \<Rightarrow> matrice" where
  "graphe_vide taille = replicate taille (replicate taille Infini)"

text \<open>\<open>m[i][j] = v\<close>.\<close>

definition ecrire :: "matrice \<Rightarrow> int \<Rightarrow> int \<Rightarrow> poids \<Rightarrow> matrice result" where
  "ecrire m i j v =
     res_bind (py_index m i) (\<lambda>ligne.
       res_bind (py_update ligne j v) (\<lambda>ligne'. py_update m i ligne'))"

definition graphe_symetrique :: "matrice \<Rightarrow> matrice result" where
  "graphe_symetrique g =
     boucle (\<lambda>i sym.
        boucle (\<lambda>j sym.
           res_bind (entree g i j) (\<lambda>w.
             if w \<noteq> Infini then res_bind (ecrire sym i j w) (\<lambda>sym'. ecrire sym' j i w)
             else Inr sym))
          (py_range (nb_sommets g)) sym)
       (py_range (nb_sommets g)) (graphe_vide (nb_sommets g))"

definition cc_sommet :: "matrice \<Rightarrow> sommet \<Rightarrow> sommet set result" where
  "cc_sommet g s = res_bind (graphe_symetrique g) (\<lambda>sym. cfc_sommet sym s)"

text \<open>
  The comprehension of \<open>cc_graphe\<close>: vertex \<open>s\<close> contributes its component unless an equal
  set is among the components of the vertices below \<open>s\<close>.
\<close>

definition cc_graphe :: "matrice \<Rightarrow> sommet set list result" where
  "cc_graphe g =
     boucle (\<lambda>s acc.
        res_bind (boucle (\<lambda>s_bis l. res_bind (cc_sommet g s_bis) (\<lambda>c. Inr (l @ [c])))
                    (py_range (nat s)) []) (\<lambda>avant.
          res_bind (cc_sommet g s) (\<lambda>c.
            if count_list avant c < 1 then res_bind (cc_sommet g s) (\<lambda>c'. Inr (acc @ [c']))
            else Inr acc)))
       (py_range (nb_sommets g)) []"

definition est_connexe :: "matrice \<Rightarrow> bool result" where
  "est_connexe g = res_bind (cc_graphe g) (\<lambda>ccs. Inr (length ccs = 1))"

text \<open>\<open>max(xs, key=k)\<close>: the first element whose key is greatest; ValueError on no element.\<close>

fun py_max_key :: "('a \<Rightarrow> 'k::linorder) \<Rightarrow> 'a list \<Rightarrow> 'a result" where
  "py_max_key k [] = Inl ValueError"
| "py_max_key k (x # xs) = Inr (fold (\<lambda>y best. if k best < k y then y else best) xs x)"

text \<open>\<open>d[k]\<close> on a dict.\<close>

definition py_cle :: "('k \<rightharpoonup> 'v) \<Rightarrow> 'k \<Rightarrow> 'v result" where
  "py_cle d k = (case d k of None \<Rightarrow> Inl KeyError | Some v \<Rightarrow> Inr v)"

text \<open>
  \<open>plus_grosse_cc\<close> enumerates a set twice; the order in which a set yields its elements
  is fixed for a given set but is not the order of the integers, so it is a parameter
  \<open>ordre\<close>. In the assignment to \<open>mat\<close> the right-hand side is evaluated first, then
  \<open>mat[new_index]\<close>, then \<open>index_map[succ]\<close>.
\<close>

definition plus_grosse_cc :: "(sommet set \<Rightarrow> sommet list) \<Rightarrow> matrice \<Rightarrow> matrice result" where
  "plus_grosse_cc ordre g =
     res_bind (cc_graphe g) (\<lambda>composantes.
     res_bind (py_max_key card composantes) (\<lambda>plus_grosse.
       let n = card plus_grosse;
           mat = graphe_vide n;
           index_map = fold (\<lambda>(new_index, old_index) d. d(old_index \<mapsto> new_index))
                         (zip (py_range (length (ordre plus_grosse))) (ordre plus_grosse)) Map.empty
       in boucle (\<lambda>old_index mat.
            res_bind (py_cle index_map old_index) (\<lambda>new_index.
            res_bind (successeurs g old_index) (\<lambda>succs.
              boucle (\<lambda>succ mat.
                 if succ \<in> plus_grosse then
                   res_bind (entree g old_index succ) (\<lambda>w.
                   res_bind (py_index mat new_index) (\<lambda>ligne.
                   res_bind (py_cle index_map succ) (\<lambda>k.
                   res_bind (py_update ligne k w) (\<lambda>ligne'. py_update mat new_index ligne'))))
                 else Inr mat)
                succs mat)))
            (ordre plus_grosse) mat))"

section \<open>AlgoDijkstra\<close>

text \<open>
  \<open>min(xs, key=k)\<close>: the first element whose key is least; ValueError on no element.
  The key may raise.
\<close>

fun py_min_key :: "('a \<Rightarrow> 'k::linorder result) \<Rightarrow> 'a list \<Rightarrow> 'a result" where
  "py_min_key k [] = Inl ValueError"
| "py_min_key k (x # xs) =
     res_bind (k x) (\<lambda>kx.
       res_bind (boucle (\<lambda>y (best, kb).
                   res_bind (k y) (\<lambda>ky. Inr (if ky < kb then (y, ky) else (best, kb))))
                  xs (x, kx))
         (\<lambda>(best, kb). Inr best))"

type_synonym vecteurs = "poids list \<times> sommet option list"

text \<open>The body of the loop over \<open>neighbour\<close>: one relaxation.\<close>

definition relacher :: "matrice \<Rightarrow> sommet \<Rightarrow> sommet \<Rightarrow> vecteurs \<Rightarrow> vecteurs result" where
  "relacher g current neighbour v =
     (case v of (distances, preds) \<Rightarrow>
        res_bind (entree g current neighbour) (\<lambda>w.
          if w \<noteq> Infini then
            res_bind (py_index distances current) (\<lambda>dc.
              let alt_distance = ajout dc w in
              res_bind (py_index distances neighbour) (\<lambda>dn.
                if alt_distance < dn then
                  res_bind (py_update distances neighbour alt_distance) (\<lambda>distances'.
                    res_bind (py_update preds neighbour (Some current)) (\<lambda>preds'.
                      Inr (distances', preds')))
                else Inr (distances, preds)))
          else Inr (distances, preds)))"

text \<open>
  The set \<open>unvisited\<close> is held as the list of its elements in the order the set yields
  them: \<open>set(range(n))\<close> yields \<open>0, 1, ..., n-1\<close>, and removing an element keeps the
  order of the others. One pass of the \<open>while\<close> loop:
\<close>

definition iteration :: "matrice \<Rightarrow> nat \<Rightarrow> sommet list \<times> vecteurs \<Rightarrow> (sommet list \<times> vecteurs) result" where
  "iteration g n st =
     (case st of (unvisited, distances, preds) \<Rightarrow>
        res_bind (py_min_key (py_index distances) unvisited) (\<lambda>current.
          res_bind (boucle (relacher g current) (py_range n) (distances, preds)) (\<lambda>v.
            Inr (remove1 current unvisited, v))))"

lemma py_min_key_dans:
  assumes "py_min_key k xs = Inr c"
  shows "c \<in> set xs"
proof (cases xs)
  case Nil
  with assms show ?thesis by simp
next
  case (Cons x ys)
  with assms obtain kx r where r: "boucle (\<lambda>y (best, kb).
         res_bind (k y) (\<lambda>ky. Inr (if ky < kb then (y, ky) else (best, kb)))) ys (x, kx) = Inr r"
    and c: "c = fst r"
    by (auto simp: res_bind_eq_Inr split: prod.splits)
  have "fst r \<in> set (x # ys)"
    by (rule boucle_ok [OF r, where P = "\<lambda>p. fst p \<in> set (x # ys)"])
       (auto simp: res_bind_eq_Inr split: if_splits)
  with c Cons show ?thesis by simp
qed

lemma iteration_unvisited:
  assumes "iteration g n (unvisited, v) = Inr (unvisited', v')"
  shows "\<exists>c \<in> set unvisited. unvisited' = remove1 c unvisited"
  using assms py_min_key_dans
  by (fastforce simp: iteration_def res_bind_eq_Inr split: prod.splits)

function boucle_dijkstra :: "matrice \<Rightarrow> nat \<Rightarrow> sommet list \<times> vecteurs \<Rightarrow> vecteurs result" where
  "boucle_dijkstra g n st =
     (if fst st = [] then Inr (snd st)
      else (case iteration g n st of
              Inl e \<Rightarrow> Inl e
            | Inr st' \<Rightarrow> boucle_dijkstra g n st'))"
  by pat_completeness auto
termination
proof (relation "measure (\<lambda>(g, n, st). length (fst st))")
  show "wf (measure (\<lambda>(g, n, st). length (fst st)))"
    by simp
next
  fix g :: matrice and n :: nat and st st' :: "sommet list \<times> vecteurs"
  assume a: "fst st \<noteq> []" "iteration g n st = Inr st'"
  obtain u v u' v' where st: "st = (u, v)" "st' = (u', v')"
    by (cases st; cases st') auto
  from iteration_unvisited [of g n u v u' v'] a(2) st
  obtain c where "c \<in> set u" "u' = remove1 c u" by auto
  then have "length u' < length u"
    using length_pos_if_in_set [of c u] by (simp add: length_remove1)
  then show "((g, n, st'), (g, n, st)) \<in> measure (\<lambda>(g, n, st). length (fst st))"
    using st by simp
qed

text \<open>The variables at the entry of the \<open>while\<close> loop; \<open>distances[s] = 0\<close> may raise.\<close>

definition etat_initial :: "matrice \<Rightarrow> sommet \<Rightarrow> (sommet list \<times> vecteurs) result" where
  "etat_initial g s =
     (let n = nb_sommets g;
          distances = replicate n Infini;
          preds = replicate n None
      in res_bind (py_update distances s (Fin 0)) (\<lambda>distances'.
           Inr (py_range n, distances', preds)))"

definition calculPCCSommet :: "matrice \<Rightarrow> sommet \<Rightarrow> vecteurs result" where
  "calculPCCSommet g s = res_bind (etat_initial g s) (boucle_dijkstra g (nb_sommets g))"

text \<open>\<open>repeter k f\<close> runs a loop body \<open>k\<close> times.\<close>

fun repeter :: "nat \<Rightarrow> ('s \<Rightarrow> 's result) \<Rightarrow> 's \<Rightarrow> 's result" where
  "repeter 0 f st = Inr st"
| "repeter (Suc k) f st = res_bind (repeter k f st) f"

definition calculPCCTousSommets :: "matrice \<Rightarrow> (poids list list \<times> sommet option list list) result" where
  "calculPCCTousSommets g =
     boucle (\<lambda>s (distances, preds).
        res_bind (calculPCCSommet g s) (\<lambda>(dist, pred).
          Inr (distances @ [dist], preds @ [pred])))
       (py_range (nb_sommets g)) ([], [])"

subsection \<open>The routine over the arithmetic of the matrix\<close>

text \<open>
  The sum of \<open>algos.py\<close> line 97 is the \<open>+\<close> of the numbers the matrix holds: float64 addition,
  which rounds and overflows to \<open>inf\<close>, when the matrix holds an \<open>inf\<close> or a float, and int64
  addition, which wraps around, when it holds only ints. \<open>ajout\<close> is that sum where it is exact.
  Here is the routine with the addition as a parameter; nothing else differs, and with \<open>ajout\<close>
  it is \<open>calculPCCSommet\<close> (\<open>calculPCCSommet_avec_ajout\<close>).
\<close>

definition relacher_avec ::
    "(poids \<Rightarrow> poids \<Rightarrow> poids) \<Rightarrow> matrice \<Rightarrow> sommet \<Rightarrow> sommet \<Rightarrow> vecteurs \<Rightarrow> vecteurs result" where
  "relacher_avec addition g current neighbour v =
     (case v of (distances, preds) \<Rightarrow>
        res_bind (entree g current neighbour) (\<lambda>w.
          if w \<noteq> Infini then
            res_bind (py_index distances current) (\<lambda>dc.
              let alt_distance = addition dc w in
              res_bind (py_index distances neighbour) (\<lambda>dn.
                if alt_distance < dn then
                  res_bind (py_update distances neighbour alt_distance) (\<lambda>distances'.
                    res_bind (py_update preds neighbour (Some current)) (\<lambda>preds'.
                      Inr (distances', preds')))
                else Inr (distances, preds)))
          else Inr (distances, preds)))"

definition iteration_avec ::
    "(poids \<Rightarrow> poids \<Rightarrow> poids) \<Rightarrow> matrice \<Rightarrow> nat \<Rightarrow> sommet list \<times> vecteurs
       \<Rightarrow> (sommet list \<times> vecteurs) result" where
  "iteration_avec addition g n st =
     (case st of (unvisited, distances, preds) \<Rightarrow>
        res_bind (py_min_key (py_index distances) unvisited) (\<lambda>current.
          res_bind (boucle (relacher_avec addition g current) (py_range n) (distances, preds)) (\<lambda>v.
            Inr (remove1 current unvisited, v))))"

lemma iteration_avec_unvisited:
  assumes "iteration_avec addition g n (unvisited, v) = Inr (unvisited', v')"
  shows "\<exists>c \<in> set unvisited. unvisited' = remove1 c unvisited"
  using assms py_min_key_dans
  by (fastforce simp: iteration_avec_def res_bind_eq_Inr split: prod.splits)

function boucle_dijkstra_avec ::
    "(poids \<Rightarrow> poids \<Rightarrow> poids) \<Rightarrow> matrice \<Rightarrow> nat \<Rightarrow> sommet list \<times> vecteurs \<Rightarrow> vecteurs result" where
  "boucle_dijkstra_avec addition g n st =
     (if fst st = [] then Inr (snd st)
      else (case iteration_avec addition g n st of
              Inl e \<Rightarrow> Inl e
            | Inr st' \<Rightarrow> boucle_dijkstra_avec addition g n st'))"
  by pat_completeness auto
termination
proof (relation "measure (\<lambda>(addition, g, n, st). length (fst st))")
  show "wf (measure (\<lambda>(addition :: poids \<Rightarrow> poids \<Rightarrow> poids, g :: matrice, n :: nat,
                        st :: sommet list \<times> vecteurs). length (fst st)))"
    by simp
next
  fix addition :: "poids \<Rightarrow> poids \<Rightarrow> poids" and g :: matrice and n :: nat
    and st st' :: "sommet list \<times> vecteurs"
  assume a: "fst st \<noteq> []" "iteration_avec addition g n st = Inr st'"
  obtain u v u' v' where st: "st = (u, v)" "st' = (u', v')"
    by (cases st; cases st') auto
  from iteration_avec_unvisited [of addition g n u v u' v'] a(2) st
  obtain c where "c \<in> set u" "u' = remove1 c u" by auto
  then have "length u' < length u"
    using length_pos_if_in_set [of c u] by (simp add: length_remove1)
  then show "((addition, g, n, st'), (addition, g, n, st))
      \<in> measure (\<lambda>(addition, g, n, st). length (fst st))"
    using st by simp
qed

definition calculPCCSommet_avec ::
    "(poids \<Rightarrow> poids \<Rightarrow> poids) \<Rightarrow> matrice \<Rightarrow> sommet \<Rightarrow> vecteurs result" where
  "calculPCCSommet_avec addition g s =
     res_bind (etat_initial g s) (boucle_dijkstra_avec addition g (nb_sommets g))"

text \<open>
  The sum of two numpy int64 scalars wraps around modulo \<open>2^64\<close>; the sum of \<open>inf\<close>, a Python
  float, and anything is \<open>inf\<close>.
\<close>

definition int64 :: "int \<Rightarrow> int" where
  "int64 k = (k + 2 ^ 63) mod 2 ^ 64 - 2 ^ 63"

fun ajout_int64 :: "poids \<Rightarrow> poids \<Rightarrow> poids" where
  "ajout_int64 (Fin a) (Fin b) = Fin (of_int (int64 (\<lfloor>a\<rfloor> + \<lfloor>b\<rfloor>)))"
| "ajout_int64 (Fin a) Infini = Infini"
| "ajout_int64 Infini b = Infini"

text \<open>
  The sum of two float64 numbers is the exact sum rounded to a float64, or \<open>inf\<close> past the
  largest one: \<open>arrondi\<close> stands for that rounding.
\<close>

fun ajout_arrondi :: "(real \<Rightarrow> poids) \<Rightarrow> poids \<Rightarrow> poids \<Rightarrow> poids" where
  "ajout_arrondi arrondi (Fin a) (Fin b) = arrondi (a + b)"
| "ajout_arrondi arrondi (Fin a) Infini = Infini"
| "ajout_arrondi arrondi Infini b = Infini"

section \<open>ReseauSocial\<close>

text \<open>
  The shortest-path object a network holds is either the base class, whose single-source
  method returns two empty lists, or the Dijkstra class; each keeps its own graph.
\<close>

datatype algo = AlgoPlusCourtChemin matrice | AlgoDijkstra matrice

fun algo_calculPCCSommet :: "algo \<Rightarrow> sommet \<Rightarrow> vecteurs result" where
  "algo_calculPCCSommet (AlgoPlusCourtChemin g) s = Inr ([], [])"
| "algo_calculPCCSommet (AlgoDijkstra g) s = calculPCCSommet g s"

record reseau_social =
  graphe :: matrice
  algoPCC :: algo

text \<open>\<open>max(xs)\<close>: ValueError on the empty list.\<close>

fun py_max :: "'a::linorder list \<Rightarrow> 'a result" where
  "py_max [] = Inl ValueError"
| "py_max (x # xs) = Inr (fold (\<lambda>y best. if best < y then y else best) xs x)"

definition diametre :: "reseau_social \<Rightarrow> poids result" where
  "diametre r =
     boucle (\<lambda>s max_distance.
        res_bind (algo_calculPCCSommet (algoPCC r) s) (\<lambda>(distances, _).
          res_bind (py_max distances) (\<lambda>m. Inr (max max_distance m))))
       (py_range (nb_sommets (graphe r))) (Fin 0)"

text \<open>\<open>degre_sommet\<close> of the network: the length of a list comprehension over row \<open>s\<close>.\<close>

definition degre_sommet_reseau :: "reseau_social \<Rightarrow> sommet \<Rightarrow> nat result" where
  "degre_sommet_reseau r s =
     res_bind
       (boucle (\<lambda>i l. res_bind (entree (graphe r) s i) (\<lambda>w. Inr (if w \<noteq> Infini then l @ [i] else l)))
          (py_range (nb_sommets (graphe r))) [])
       (\<lambda>l. Inr (length l))"

text \<open>
  The quotient of \<open>proximite_sommet\<close> is a float, which may be infinite or not a number.
  \<open>x / k\<close> by an int \<open>k\<close>: when \<open>k\<close> is 0, Python raises ZeroDivisionError if \<open>x\<close> is a Python
  number, while a numpy scalar \<open>x\<close> gives an infinity or NaN.
\<close>

datatype flottant = Reel real | PlusInf | MoinsInf | NaN

definition py_diviser :: "bool \<Rightarrow> poids \<Rightarrow> int \<Rightarrow> flottant result" where
  "py_diviser numpy x k =
     (if k = 0 then
        (if numpy then
           Inr (case x of
                  Infini \<Rightarrow> PlusInf
                | Fin a \<Rightarrow> (if 0 < a then PlusInf else if a < 0 then MoinsInf else NaN))
         else Inl ZeroDivisionError)
      else
        Inr (case x of
               Infini \<Rightarrow> (if 0 < k then PlusInf else MoinsInf)
             | Fin a \<Rightarrow> Reel (a / real_of_int k)))"

text \<open>
  \<open>sum(distances)\<close> starts from the int 0. An entry of \<open>distances\<close> is a numpy scalar exactly
  when the loop has written it, that is when the same entry of the predecessor vector is not
  \<open>None\<close>; the sum is a numpy scalar as soon as one entry is. The sum is taken exactly.
\<close>

definition proximite_sommet :: "reseau_social \<Rightarrow> sommet \<Rightarrow> flottant result" where
  "proximite_sommet r s =
     res_bind (algo_calculPCCSommet (algoPCC r) s) (\<lambda>(distances, preds).
       py_diviser (list_ex (\<lambda>p. p \<noteq> None) preds)
         (fold (\<lambda>x somme. ajout somme x) distances (Fin 0))
         (int (nb_sommets (graphe r)) - 1))"

section \<open>Notions used in the statements\<close>

text \<open>
  The matrix of the demonstration at the bottom of \<open>algos.py\<close> and \<open>reseau.py\<close>:
  unit-weight edges 0-1, 0-3, 1-2, 1-3, 2-3, 2-4, 3-4, 4-5, 5-6.
\<close>

definition matrice_exemple :: matrice where
  "matrice_exemple =
     [[Infini, Fin 1, Infini, Fin 1, Infini, Infini, Infini],
      [Fin 1, Infini, Fin 1, Fin 1, Infini, Infini, Infini],
      [Infini, Fin 1, Infini, Fin 1, Fin 1, Infini, Infini],
      [Fin 1, Fin 1, Fin 1, Infini, Fin 1, Infini, Infini],
      [Infini, Infini, Fin 1, Fin 1, Infini, Fin 1, Infini],
      [Infini, Infini, Infini, Infini, Fin 1, Infini, Fin 1],
      [Infini, Infini, Infini, Infini, Infini, Fin 1, Infini]]"

text \<open>An edge of the graph, and reachability along edges.\<close>

definition arete :: "matrice \<Rightarrow> nat \<Rightarrow> nat \<Rightarrow> bool" where
  "arete g u v = (u < length g \<and> v < length (g ! u) \<and> g ! u ! v \<noteq> Infini)"

definition accessible :: "matrice \<Rightarrow> nat \<Rightarrow> nat \<Rightarrow> bool" where
  "accessible g s v = rtranclp (arete g) s v"

text \<open>
  Following the predecessor pointers from \<open>v\<close>: the vertices met, \<open>v\<close> first, until a vertex
  without predecessor. The walk gives up (\<open>None\<close>) after \<open>k\<close> vertices or on an index out of
  range.
\<close>

fun remonter :: "sommet option list \<Rightarrow> nat \<Rightarrow> sommet \<Rightarrow> sommet list option" where
  "remonter preds 0 v = None"
| "remonter preds (Suc k) v =
     (case py_index preds v of
        Inl e \<Rightarrow> None
      | Inr None \<Rightarrow> Some [v]
      | Inr (Some u) \<Rightarrow> map_option (\<lambda>ch. v # ch) (remonter preds k u))"

text \<open>
  The length of a walk written backwards (\<open>v\<close> first, source last): the entries
  \<open>matrice[u][v]\<close> of its steps from \<open>u\<close> to \<open>v\<close>, added up from the source with the addition of
  the routine; \<open>None\<close> if a step is not an edge of the graph.
\<close>

fun chemin_retour :: "(poids \<Rightarrow> poids \<Rightarrow> poids) \<Rightarrow> matrice \<Rightarrow> sommet list \<Rightarrow> poids option" where
  "chemin_retour addition g [] = None"
| "chemin_retour addition g [v] = Some (Fin 0)"
| "chemin_retour addition g (v # u # reste) =
     (case chemin_retour addition g (u # reste) of
        None \<Rightarrow> None
      | Some l \<Rightarrow> (case entree g u v of
                     Inr (Fin w) \<Rightarrow> Some (addition l (Fin w))
                   | _ \<Rightarrow> None))"

text \<open>
  The same on vertices as naturals. \<open>marche g bp\<close>: every step of the backward walk \<open>bp\<close> is an
  edge; \<open>suit g p bp\<close>: moreover every vertex is followed by its predecessor in \<open>p\<close>.
\<close>

fun marche :: "matrice \<Rightarrow> nat list \<Rightarrow> bool" where
  "marche g (v # u # r) = (g ! u ! v \<noteq> Infini \<and> marche g (u # r))"
| "marche g [v] = True"
| "marche g [] = True"

fun suit :: "matrice \<Rightarrow> sommet option list \<Rightarrow> nat list \<Rightarrow> bool" where
  "suit g p (v # u # r) = (p ! v = Some (int u) \<and> g ! u ! v \<noteq> Infini \<and> suit g p (u # r))"
| "suit g p [v] = True"
| "suit g p [] = True"

fun poids_retour :: "(poids \<Rightarrow> poids \<Rightarrow> poids) \<Rightarrow> matrice \<Rightarrow> nat list \<Rightarrow> poids" where
  "poids_retour addition g (v # u # r) = addition (poids_retour addition g (u # r)) (g ! u ! v)"
| "poids_retour addition g [v] = Fin 0"
| "poids_retour addition g [] = Fin 0"

text \<open>A walk from \<open>s\<close> along edges that meets no vertex twice, written backwards.\<close>

definition marche_simple :: "matrice \<Rightarrow> nat \<Rightarrow> nat list \<Rightarrow> bool" where
  "marche_simple g s bp =
     (bp \<noteq> [] \<and> last bp = s \<and> distinct bp \<and> (\<forall>x \<in> set bp. x < length g) \<and> marche g bp)"

text \<open>
  Two conditions on the addition, over the walks of the graph from \<open>s\<close>. \<open>sans_recul\<close>: adding
  a non-negative entry to the length of a walk, for one more step, never gives less.
  \<open>sans_debordement\<close>: the length of a walk is never \<open>inf\<close>.
\<close>

definition sans_recul :: "(poids \<Rightarrow> poids \<Rightarrow> poids) \<Rightarrow> matrice \<Rightarrow> nat \<Rightarrow> bool" where
  "sans_recul addition g s =
     (\<forall>bp j. marche_simple g s bp \<and> j < length g \<and> g ! hd bp ! j \<noteq> Infini \<and> Fin 0 \<le> g ! hd bp ! j
        \<longrightarrow> poids_retour addition g bp \<le> addition (poids_retour addition g bp) (g ! hd bp ! j))"

definition sans_debordement :: "(poids \<Rightarrow> poids \<Rightarrow> poids) \<Rightarrow> matrice \<Rightarrow> nat \<Rightarrow> bool" where
  "sans_debordement addition g s =
     (\<forall>bp. marche_simple g s bp \<longrightarrow> poids_retour addition g bp \<noteq> Infini)"

text \<open>
  \<open>chemin_vers addition g s u d p v\<close>: the predecessor vector \<open>p\<close> holds a walk back from \<open>v\<close>
  to \<open>s\<close> along edges of \<open>g\<close>, through vertices of finite distance that are no longer in the
  unvisited list \<open>u\<close>, of length \<open>d[v]\<close>.
\<close>

definition chemin_vers ::
    "(poids \<Rightarrow> poids \<Rightarrow> poids) \<Rightarrow> matrice \<Rightarrow> nat \<Rightarrow> sommet list \<Rightarrow> poids list
       \<Rightarrow> sommet option list \<Rightarrow> nat \<Rightarrow> bool" where
  "chemin_vers addition g s u d p v =
     (\<exists>bp. bp \<noteq> [] \<and> hd bp = v \<and> last bp = s \<and> distinct bp \<and> (\<forall>x \<in> set bp. x < length g)
        \<and> (\<forall>x \<in> set (tl bp). int x \<notin> set u) \<and> suit g p bp
        \<and> poids_retour addition g bp = d ! v \<and> (\<forall>x \<in> set bp. d ! x \<noteq> Infini))"

text \<open>The invariant of the \<open>while\<close> loop for source \<open>s\<close>, \<open>u\<close> being the unvisited list.\<close>

definition inv_dijkstra ::
    "(poids \<Rightarrow> poids \<Rightarrow> poids) \<Rightarrow> matrice \<Rightarrow> nat \<Rightarrow> sommet list \<Rightarrow> poids list
       \<Rightarrow> sommet option list \<Rightarrow> bool" where
  "inv_dijkstra addition g s u d p =
     (d ! s = Fin 0 \<and> p ! s = None
      \<and> (int s \<in> set u \<longrightarrow> (\<forall>v<length g. v \<noteq> s \<longrightarrow> d ! v = Infini))
      \<and> (\<forall>v<length g. \<forall>y<length g. int v \<notin> set u \<and> int y \<in> set u \<longrightarrow> d ! v \<le> d ! y)
      \<and> (\<forall>v<length g. d ! v \<noteq> Infini \<longrightarrow> chemin_vers addition g s u d p v)
      \<and> (sans_debordement addition g s \<longrightarrow>
           (\<forall>a<length g. \<forall>b<length g.
              int a \<notin> set u \<and> d ! a \<noteq> Infini \<and> g ! a ! b \<noteq> Infini \<longrightarrow> d ! b \<noteq> Infini)))"

text \<open>
  A matrix under construction: of the size of \<open>g\<close>, each entry either already the entry of
  \<open>g\<close> or still \<open>inf\<close>.
\<close>

definition conforme :: "matrice \<Rightarrow> matrice \<Rightarrow> bool" where
  "conforme g ms = (length ms = length g \<and>
     (\<forall>a<length g. length (ms ! a) = length g \<and>
        (\<forall>b<length g. ms ! a ! b = g ! a ! b \<or> ms ! a ! b = Infini)))"

text \<open>An \<open>n \<times> n\<close> matrix.\<close>

definition forme :: "nat \<Rightarrow> matrice \<Rightarrow> bool" where
  "forme n m = (length m = n \<and> (\<forall>ligne \<in> set m. length ligne = n))"

section \<open>Rules for the loops of Dijkstra\<close>

lemma entree_nat:
  "i < length g \<Longrightarrow> j < length (g ! i) \<Longrightarrow> entree g (int i) (int j) = Inr (g ! i ! j)"
  by (simp add: entree_def)

lemma relacher_nat:
  assumes "c < length g" "j < length (g ! c)" "c < length d" "j < length d" "j < length p"
  shows "relacher g (int c) (int j) (d, p) =
     Inr (if g ! c ! j \<noteq> Infini \<and> ajout (d ! c) (g ! c ! j) < d ! j
          then (d[j := ajout (d ! c) (g ! c ! j)], p[j := Some (int c)]) else (d, p))"
  using assms by (simp add: relacher_def entree_nat Let_def)

lemma py_min_key_boucle:
  fixes kf :: "'a \<Rightarrow> 'k::linorder"
  assumes "\<forall>y \<in> set ys. k y = Inr (kf y)"
  shows "\<exists>b. boucle (\<lambda>y (best, kb). res_bind (k y) (\<lambda>ky. Inr (if ky < kb then (y, ky) else (best, kb))))
               ys (best, kf best) = Inr (b, kf b)
           \<and> b \<in> insert best (set ys) \<and> kf b \<le> kf best \<and> (\<forall>y \<in> set ys. kf b \<le> kf y)"
  using assms
proof (induction ys arbitrary: best)
  case Nil
  then show ?case by simp
next
  case (Cons y ys)
  let ?F = "\<lambda>y (best, kb). res_bind (k y) (\<lambda>ky. Inr (if ky < kb then (y, ky) else (best, kb)))"
  define m where "m = (if kf y < kf best then y else best)"
  have step: "?F y (best, kf best) = Inr (m, kf m)"
    using Cons.prems by (simp add: m_def)
  from Cons.IH [of m] Cons.prems
  obtain b where b: "boucle ?F ys (m, kf m) = Inr (b, kf b)" "b \<in> insert m (set ys)"
    "kf b \<le> kf m" "\<forall>y \<in> set ys. kf b \<le> kf y"
    by auto
  have "kf m \<le> kf best" "kf m \<le> kf y"
    by (auto simp: m_def)
  with b step show ?case
    by (intro exI [of _ b]) (auto simp: m_def split: if_splits)
qed

lemma py_min_key_total:
  assumes "\<forall>y \<in> set xs. k y = Inr (kf y)" "xs \<noteq> []"
  shows "\<exists>c. py_min_key k xs = Inr c \<and> c \<in> set xs \<and> (\<forall>y \<in> set xs. kf c \<le> kf y)"
proof -
  from assms(2) obtain x ys where xs: "xs = x # ys" by (cases xs) auto
  from py_min_key_boucle [of ys k kf x] assms(1) xs
  obtain b where b: "boucle (\<lambda>y (best, kb). res_bind (k y) (\<lambda>ky. Inr (if ky < kb then (y, ky) else (best, kb))))
               ys (x, kf x) = Inr (b, kf b)" "b \<in> insert x (set ys)" "kf b \<le> kf x" "\<forall>y \<in> set ys. kf b \<le> kf y"
    by auto
  have "k x = Inr (kf x)" using assms(1) xs by simp
  then have "py_min_key k xs = Inr b"
    using b(1) xs by simp
  then show ?thesis using b xs by auto
qed

declare boucle_dijkstra.simps [simp del]

lemma dans_py_range: "x \<in> set (py_range n) \<Longrightarrow> \<exists>j<n. x = int j"
  by (auto simp: py_range_def)

lemma carree_ligne: "carree g \<Longrightarrow> i < length g \<Longrightarrow> length (g ! i) = length g"
  by (simp add: carree_def)

lemma relacher_boucle_regle:
  assumes g: "carree g" "length g = n" and c: "c < n"
    and l: "length d = n" "length p = n"
    and b: "boucle (relacher g (int c)) (py_range n) (d, p) = Inr (d', p')"
    and P: "P d p"
    and step: "\<And>j d1 p1. j < n \<Longrightarrow> length d1 = n \<Longrightarrow> length p1 = n \<Longrightarrow> P d1 p1 \<Longrightarrow>
        g ! c ! j \<noteq> Infini \<Longrightarrow> ajout (d1 ! c) (g ! c ! j) < d1 ! j \<Longrightarrow>
        P (d1[j := ajout (d1 ! c) (g ! c ! j)]) (p1[j := Some (int c)])"
  shows "P d' p' \<and> length d' = n \<and> length p' = n"
proof -
  let ?Q = "\<lambda>v. length (fst v) = n \<and> length (snd v) = n \<and> P (fst v) (snd v)"
  have "?Q (d', p')"
  proof (rule boucle_ok [OF b, where P = ?Q])
    show "?Q (d, p)" using l P by simp
  next
    fix x a b
    assume x: "x \<in> set (py_range n)" and a: "?Q a" and r: "relacher g (int c) x a = Inr b"
    from dans_py_range [OF x] obtain j where j: "j < n" "x = int j" by auto
    obtain d1 p1 where a1: "a = (d1, p1)" by (cases a)
    have "relacher g (int c) (int j) (d1, p1) =
       Inr (if g ! c ! j \<noteq> Infini \<and> ajout (d1 ! c) (g ! c ! j) < d1 ! j
            then (d1[j := ajout (d1 ! c) (g ! c ! j)], p1[j := Some (int c)]) else (d1, p1))"
      using g c j a a1 carree_ligne [OF g(1), of c] by (intro relacher_nat) auto
    with r j a1 have b: "b = (if g ! c ! j \<noteq> Infini \<and> ajout (d1 ! c) (g ! c ! j) < d1 ! j
            then (d1[j := ajout (d1 ! c) (g ! c ! j)], p1[j := Some (int c)]) else (d1, p1))"
      by simp
    show "?Q b"
      using a a1 step [OF j(1), of d1 p1] by (simp add: b)
  qed
  then show ?thesis by simp
qed

lemma relacher_boucle_total:
  assumes g: "carree g" "length g = n" and c: "c < n"
    and l: "length d = n" "length p = n"
  shows "\<exists>d' p'. boucle (relacher g (int c)) (py_range n) (d, p) = Inr (d', p')"
proof -
  let ?Q = "\<lambda>v. length (fst v) = n \<and> length (snd v) = n"
  have "\<exists>v. boucle (relacher g (int c)) (py_range n) (d, p) = Inr v \<and> ?Q v"
  proof (rule boucle_total [where P = ?Q])
    show "?Q (d, p)" using l by simp
  next
    fix x and a :: vecteurs
    assume x: "x \<in> set (py_range n)" and a: "?Q a"
    from dans_py_range [OF x] obtain j where j: "j < n" "x = int j" by auto
    obtain d1 p1 where a1: "a = (d1, p1)" by (cases a)
    have "relacher g (int c) (int j) (d1, p1) =
       Inr (if g ! c ! j \<noteq> Infini \<and> ajout (d1 ! c) (g ! c ! j) < d1 ! j
            then (d1[j := ajout (d1 ! c) (g ! c ! j)], p1[j := Some (int c)]) else (d1, p1))"
      using g c j a a1 carree_ligne [OF g(1), of c] by (intro relacher_nat) auto
    then show "\<exists>b. relacher g (int c) x a = Inr b \<and> ?Q b"
      using a a1 j by simp
  qed
  then show ?thesis by auto
qed

lemma iteration_regle:
  assumes g: "carree g" "length g = n"
    and l: "length d = n" "length p = n"
    and u: "set u \<subseteq> {0..<int n}" "u \<noteq> []"
  shows "\<exists>c d' p'. c < n \<and> int c \<in> set u \<and> (\<forall>y<n. int y \<in> set u \<longrightarrow> d ! c \<le> d ! y)
            \<and> boucle (relacher g (int c)) (py_range n) (d, p) = Inr (d', p')
            \<and> iteration g n (u, d, p) = Inr (remove1 (int c) u, d', p')"
proof -
  have "\<forall>y \<in> set u. py_index d y = Inr (d ! nat y)"
    using u(1) l by (auto simp: py_index_def)
  from py_min_key_total [OF this u(2)]
  obtain x where x: "py_min_key (py_index d) u = Inr x" "x \<in> set u"
    "\<forall>y \<in> set u. d ! nat x \<le> d ! nat y" by auto
  define c where "c = nat x"
  from x(2) u(1) have "0 \<le> x" "x < int n" by auto
  then have c: "c < n" "x = int c" by (auto simp: c_def)
  from relacher_boucle_total [OF g c(1) l]
  obtain d' p' where b: "boucle (relacher g (int c)) (py_range n) (d, p) = Inr (d', p')" by auto
  have "iteration g n (u, d, p) = Inr (remove1 (int c) u, d', p')"
    using x(1) b c by (simp add: iteration_def)
  moreover have "\<forall>y<n. int y \<in> set u \<longrightarrow> d ! c \<le> d ! y"
    using x(3) c by fastforce
  ultimately show ?thesis using b c x(2) by blast
qed

lemma boucle_dijkstra_regle:
  assumes "I st"
    and "\<And>st. I st \<Longrightarrow> fst st \<noteq> [] \<Longrightarrow> \<exists>st'. iteration g n st = Inr st' \<and> I st'"
  shows "\<exists>v. boucle_dijkstra g n st = Inr v \<and> I ([], v)"
  using assms
proof (induction g n st rule: boucle_dijkstra.induct)
  case (1 g n st)
  show ?case
  proof (cases "fst st = []")
    case True
    with "1.prems"(1) show ?thesis
      by (subst boucle_dijkstra.simps) (cases st, auto)
  next
    case False
    from "1.prems"(2) [OF "1.prems"(1) False]
    obtain st' where st': "iteration g n st = Inr st'" "I st'" by auto
    from "1.IH" [OF False st'(1) st'(2) "1.prems"(2)]
    obtain v where "boucle_dijkstra g n st' = Inr v" "I ([], v)" by auto
    then show ?thesis using False st'(1)
      by (subst boucle_dijkstra.simps) simp
  qed
qed

lemma etat_initial_nat:
  "s < length g \<Longrightarrow> etat_initial g (int s) =
     Inr (py_range (length g), (replicate (length g) Infini)[s := Fin 0], replicate (length g) None)"
  by (simp add: etat_initial_def nb_sommets_def Let_def)

lemma repeter_iteration:
  assumes g: "carree g" "length g = n"
    and l: "length d = n" "length p = n"
    and u: "set u \<subseteq> {0..<int n}" "distinct u"
  shows "k \<le> length u \<Longrightarrow> \<exists>u' d' p'. repeter k (iteration g n) (u, d, p) = Inr (u', d', p')
            \<and> length u' = length u - k \<and> distinct u' \<and> set u' \<subseteq> {0..<int n}
            \<and> length d' = n \<and> length p' = n"
proof (induction k)
  case 0
  then show ?case using l u by simp
next
  case (Suc k)
  then obtain u1 d1 p1 where r: "repeter k (iteration g n) (u, d, p) = Inr (u1, d1, p1)"
    "length u1 = length u - k" "distinct u1" "set u1 \<subseteq> {0..<int n}" "length d1 = n" "length p1 = n"
    by auto
  have ne: "u1 \<noteq> []" using r(2) Suc.prems by auto
  from iteration_regle [OF g r(5,6,4) ne]
  obtain c d' p' where c: "c < n" "int c \<in> set u1"
    "boucle (relacher g (int c)) (py_range n) (d1, p1) = Inr (d', p')"
    "iteration g n (u1, d1, p1) = Inr (remove1 (int c) u1, d', p')"
    by blast
  have len: "length d' = n \<and> length p' = n"
    using relacher_boucle_regle [OF g c(1) r(5,6) c(3), where P = "\<lambda>_ _. True"] by simp
  have "length (remove1 (int c) u1) = length u - Suc k"
    using c(2) r(2) by (simp add: length_remove1)
  moreover have "set (remove1 (int c) u1) \<subseteq> {0..<int n}"
    using r(4) set_remove1_subset [of "int c" u1] by blast
  ultimately show ?case
    using r(1,3) c(4) len by simp
qed

lemma boucle_dijkstra_deroule:
  "(\<And>j. j < k \<Longrightarrow> \<exists>st'. repeter j (iteration g n) st = Inr st' \<and> fst st' \<noteq> []) \<Longrightarrow>
   boucle_dijkstra g n st = res_bind (repeter k (iteration g n) st) (boucle_dijkstra g n)"
proof (induction k)
  case 0
  then show ?case by simp
next
  case (Suc k)
  from Suc.prems [of k] obtain st' where st': "repeter k (iteration g n) st = Inr st'" "fst st' \<noteq> []"
    by auto
  have "boucle_dijkstra g n st = res_bind (repeter k (iteration g n) st) (boucle_dijkstra g n)"
    by (rule Suc.IH) (use Suc.prems in auto)
  also have "\<dots> = boucle_dijkstra g n st'"
    using st' by simp
  also have "\<dots> = res_bind (iteration g n st') (boucle_dijkstra g n)"
    using st'(2) by (subst boucle_dijkstra.simps) (simp add: res_bind_def)
  finally show ?case using st' by simp
qed

lemma calculPCCSommet_total:
  assumes "carree g" "s < length g"
  shows "\<exists>d p. calculPCCSommet g (int s) = Inr (d, p) \<and> length d = length g \<and> length p = length g"
proof -
  let ?n = "length g"
  let ?I = "\<lambda>st. length (fst (snd st)) = ?n \<and> length (snd (snd st)) = ?n \<and> set (fst st) \<subseteq> {0..<int ?n}"
  have "\<exists>v. boucle_dijkstra g ?n (py_range ?n, (replicate ?n Infini)[s := Fin 0], replicate ?n None) = Inr v
          \<and> ?I ([], v)"
  proof (rule boucle_dijkstra_regle [where I = ?I])
    show "?I (py_range ?n, (replicate ?n Infini)[s := Fin 0], replicate ?n None)"
      by (auto simp: set_py_range)
  next
    fix st :: "sommet list \<times> vecteurs"
    assume I: "?I st" and ne: "fst st \<noteq> []"
    obtain u d p where st: "st = (u, d, p)" by (cases st) auto
    from iteration_regle [OF assms(1) refl, of d p u] I ne st
    obtain c d' p' where c: "c < ?n" "int c \<in> set u"
      "boucle (relacher g (int c)) (py_range ?n) (d, p) = Inr (d', p')"
      "iteration g ?n (u, d, p) = Inr (remove1 (int c) u, d', p')"
      by auto
    have len: "length d' = ?n \<and> length p' = ?n"
      using relacher_boucle_regle [OF assms(1) refl c(1) _ _ c(3), where P = "\<lambda>_ _. True"] I st by simp
    have "set (remove1 (int c) u) \<subseteq> {0..<int ?n}"
      using I st set_remove1_subset [of "int c" u] by auto
    then show "\<exists>st'. iteration g ?n st = Inr st' \<and> ?I st'"
      using c(4) len st by simp
  qed
  then show ?thesis
    using assms(2) by (auto simp: calculPCCSommet_def etat_initial_nat nb_sommets_def)
qed

section \<open>Termination of the single-source routine\<close>

text \<open>
  C10: on an \<open>n \<times> n\<close> matrix and a source \<open>0 \<le> s < n\<close> the single-source routine
  returns, with a distance vector and a predecessor vector of length \<open>n\<close>. Its loop makes
  exactly \<open>n\<close> passes: after \<open>k < n\<close> passes the unvisited set has \<open>n - k\<close> elements, so
  the loop goes on, and the next pass removes one of them; after \<open>n\<close> passes the set is empty
  and the vectors are the ones returned.
\<close>

theorem calculPCCSommet_termine:
  assumes "carree g" "0 \<le> s" "s < int (length g)"
  shows "\<exists>distances preds.
      calculPCCSommet g s = Inr (distances, preds)
    \<and> length distances = length g \<and> length preds = length g
    \<and> res_bind (etat_initial g s) (repeter (length g) (iteration g (length g))) = Inr ([], distances, preds)
    \<and> (\<forall>k<length g. \<exists>u v.
          res_bind (etat_initial g s) (repeter k (iteration g (length g))) = Inr (u, v)
          \<and> length u = length g - k \<and> distinct u
          \<and> (\<exists>c\<in>set u. \<exists>v'. iteration g (length g) (u, v) = Inr (remove1 c u, v')))"
proof -
  let ?n = "length g"
  define s' where "s' = nat s"
  have s': "s' < ?n" "s = int s'" using assms(2,3) by (auto simp: s'_def)
  define d0 where "d0 = (replicate ?n Infini)[s' := Fin 0]"
  define p0 :: "sommet option list" where "p0 = replicate ?n None"
  have init: "etat_initial g s = Inr (py_range ?n, d0, p0)"
    using s' by (simp add: etat_initial_nat d0_def p0_def)
  have l0: "length d0 = ?n" "length p0 = ?n" by (simp_all add: d0_def p0_def)
  have u0: "set (py_range ?n) \<subseteq> {0..<int ?n}" "distinct (py_range ?n)" "length (py_range ?n) = ?n"
    by (auto simp: set_py_range py_range_def distinct_map)
  have etape: "\<exists>u' d' p'. repeter k (iteration g ?n) (py_range ?n, d0, p0) = Inr (u', d', p')
            \<and> length u' = ?n - k \<and> distinct u' \<and> set u' \<subseteq> {0..<int ?n}
            \<and> length d' = ?n \<and> length p' = ?n" if "k \<le> ?n" for k
    using repeter_iteration [OF assms(1) refl l0 u0(1,2), of k] that u0(3) by simp
  from etape [of ?n] obtain d p where fin: "repeter ?n (iteration g ?n) (py_range ?n, d0, p0) = Inr ([], d, p)"
    "length d = ?n" "length p = ?n" by auto
  have avant: "\<exists>u v. repeter k (iteration g ?n) (py_range ?n, d0, p0) = Inr (u, v)
          \<and> length u = ?n - k \<and> distinct u
          \<and> (\<exists>c\<in>set u. \<exists>v'. iteration g ?n (u, v) = Inr (remove1 c u, v'))" if k: "k < ?n" for k
  proof -
    from etape [of k] k obtain u1 d1 p1 where r: "repeter k (iteration g ?n) (py_range ?n, d0, p0) = Inr (u1, d1, p1)"
      "length u1 = ?n - k" "distinct u1" "set u1 \<subseteq> {0..<int ?n}" "length d1 = ?n" "length p1 = ?n"
      by auto
    have ne: "u1 \<noteq> []" using r(2) k by auto
    from iteration_regle [OF assms(1) refl r(5,6,4) ne]
    obtain c d' p' where "int c \<in> set u1" "iteration g ?n (u1, d1, p1) = Inr (remove1 (int c) u1, d', p')"
      by blast
    with r(1,2,3) show ?thesis by blast
  qed
  have "boucle_dijkstra g ?n (py_range ?n, d0, p0)
      = res_bind (repeter ?n (iteration g ?n) (py_range ?n, d0, p0)) (boucle_dijkstra g ?n)"
  proof (rule boucle_dijkstra_deroule)
    fix j assume "j < ?n"
    from avant [OF this] show "\<exists>st'. repeter j (iteration g ?n) (py_range ?n, d0, p0) = Inr st' \<and> fst st' \<noteq> []"
      using \<open>j < ?n\<close> by force
  qed
  also have "\<dots> = Inr (d, p)"
    using fin(1) by (simp add: boucle_dijkstra.simps)
  finally have "calculPCCSommet g s = Inr (d, p)"
    by (simp add: calculPCCSommet_def init nb_sommets_def)
  with fin avant show ?thesis
    by (simp add: init)
qed

theorem calculPCCSommet_termine_witness:
  "carree [[Infini, Fin 1], [Fin 1, Infini]]
   \<and> calculPCCSommet [[Infini, Fin 1], [Fin 1, Infini]] 0 = Inr ([Fin 0, Fin 1], [None, Some 0])
   \<and> res_bind (etat_initial [[Infini, Fin 1], [Fin 1, Infini]] 0)
        (repeter 2 (iteration [[Infini, Fin 1], [Fin 1, Infini]] 2)) = Inr ([], [Fin 0, Fin 1], [None, Some 0])"
proof -
  let ?g = "[[Infini, Fin 1], [Fin 1, Infini]]"
  have c: "carree ?g" by (simp add: carree_def)
  have v: "calculPCCSommet ?g 0 = Inr ([Fin 0, Fin 1], [None, Some 0])"
    by code_simp
  from calculPCCSommet_termine [OF c, of 0] v
  have "res_bind (etat_initial ?g 0) (repeter (length ?g) (iteration ?g (length ?g)))
          = Inr ([], [Fin 0, Fin 1], [None, Some 0])"
    by auto
  then show ?thesis using c v by (simp add: numeral_2_eq_2)
qed

section \<open>All sources\<close>

lemma tous_sommets_prefixe:
  "boucle (\<lambda>s (distances, preds).
        res_bind (calculPCCSommet g s) (\<lambda>(dist, pred).
          Inr (distances @ [dist], preds @ [pred])))
       (py_range m) ([], []) = Inr (D, P) \<Longrightarrow>
   length D = m \<and> length P = m \<and> (\<forall>s<m. calculPCCSommet g (int s) = Inr (D ! s, P ! s))"
proof (induction m arbitrary: D P)
  case 0
  then show ?case by simp
next
  case (Suc m)
  let ?F = "\<lambda>s (distances, preds).
        res_bind (calculPCCSommet g s) (\<lambda>(dist, pred).
          Inr (distances @ [dist], preds @ [pred]))"
  from Suc.prems obtain D1 P1 where a: "boucle ?F (py_range m) ([], []) = Inr (D1, P1)"
    and b: "?F (int m) (D1, P1) = Inr (D, P)"
    by (auto simp: py_range_Suc boucle_append split: sum.splits)
  from b obtain dist pred where c: "calculPCCSommet g (int m) = Inr (dist, pred)"
    "D = D1 @ [dist]" "P = P1 @ [pred]"
    by (auto simp: res_bind_eq_Inr)
  from Suc.IH [OF a] have ih: "length D1 = m" "length P1 = m"
    "\<forall>s<m. calculPCCSommet g (int s) = Inr (D1 ! s, P1 ! s)" by auto
  show ?case
    using ih c by (auto simp: nth_append less_Suc_eq)
qed

lemma tous_sommets_total:
  assumes "carree g"
  shows "\<exists>r. calculPCCTousSommets g = Inr r"
proof -
  have "\<exists>r. boucle (\<lambda>s (distances, preds).
        res_bind (calculPCCSommet g s) (\<lambda>(dist, pred).
          Inr (distances @ [dist], preds @ [pred])))
       (py_range (length g)) ([], []) = Inr r \<and> True"
  proof (rule boucle_total [where P = "\<lambda>_. True"])
    fix x and a :: "poids list list \<times> sommet option list list"
    assume "x \<in> set (py_range (length g))"
    from dans_py_range [OF this] obtain j where j: "j < length g" "x = int j" by auto
    from calculPCCSommet_total [OF assms j(1)] j(2)
    show "\<exists>b. (case a of (distances, preds) \<Rightarrow>
        res_bind (calculPCCSommet g x) (\<lambda>(dist, pred).
          Inr (distances @ [dist], preds @ [pred]))) = Inr b \<and> True"
      by (cases a) auto
  qed simp
  then show ?thesis by (simp add: calculPCCTousSommets_def nb_sommets_def)
qed

text \<open>
  C4: the all-pairs computation returns on every square matrix, and whenever it returns, both
  matrices have one row per vertex and row \<open>s\<close> of each is the vector the single-source
  computation returns for source \<open>s\<close>.
\<close>

theorem calculPCCTousSommets_lignes:
  "(carree g \<longrightarrow> (\<exists>r. calculPCCTousSommets g = Inr r))
   \<and> (\<forall>D P. calculPCCTousSommets g = Inr (D, P) \<longrightarrow>
         length D = length g \<and> length P = length g
         \<and> (\<forall>s<length g. calculPCCSommet g (int s) = Inr (D ! s, P ! s)))"
  using tous_sommets_total [of g] tous_sommets_prefixe [of g "length g"]
  by (simp add: calculPCCTousSommets_def nb_sommets_def)

theorem calculPCCTousSommets_lignes_witness:
  "carree [[Infini, Fin 1], [Fin 1, Infini]]
   \<and> calculPCCTousSommets [[Infini, Fin 1], [Fin 1, Infini]]
       = Inr ([[Fin 0, Fin 1], [Fin 1, Fin 0]], [[None, Some 0], [Some 1, None]])
   \<and> calculPCCSommet [[Infini, Fin 1], [Fin 1, Infini]] 1 = Inr ([Fin 1, Fin 0], [Some 1, None])"
proof -
  let ?g = "[[Infini, Fin 1], [Fin 1, Infini]]"
  have c: "carree ?g" by (simp add: carree_def)
  have t: "calculPCCTousSommets ?g = Inr ([[Fin 0, Fin 1], [Fin 1, Fin 0]], [[None, Some 0], [Some 1, None]])"
    by code_simp
  from calculPCCTousSommets_lignes [of ?g] t
  have lignes: "\<forall>s<length ?g. calculPCCSommet ?g (int s)
      = Inr ([[Fin 0, Fin 1], [Fin 1, Fin 0]] ! s, [[None, Some 0], [Some 1, None]] ! s)"
    by blast
  have "calculPCCSommet ?g (int 1) = Inr ([[Fin 0, Fin 1], [Fin 1, Fin 0]] ! 1, [[None, Some 0], [Some 1, None]] ! 1)"
    using lignes [rule_format, of 1] by simp
  then show ?thesis using c t by simp
qed

section \<open>Vertex indices out of range\<close>

lemma py_index_dans:
  assumes "- int (length xs) \<le> i" "i < int (length xs)"
  shows "\<exists>k<length xs. py_index xs i = Inr (xs ! k)"
proof (cases "0 \<le> i")
  case True
  with assms show ?thesis
    by (intro exI [of _ "nat i"]) (simp add: py_index_def)
next
  case False
  with assms show ?thesis
    by (intro exI [of _ "nat (int (length xs) + i)"]) (simp add: py_index_def)
qed

lemma py_index_hors:
  "i < - int (length xs) \<or> int (length xs) \<le> i \<Longrightarrow> py_index xs i = Inl IndexError"
  by (auto simp: py_index_def)

lemma py_update_hors:
  "i < - int (length xs) \<or> int (length xs) \<le> i \<Longrightarrow> py_update xs i v = Inl IndexError"
  by (auto simp: py_update_def)

lemma py_update_negatif:
  "- int (length xs) \<le> i \<Longrightarrow> i < 0 \<Longrightarrow> py_update xs i v = py_update xs (int (length xs) + i) v"
  by (simp add: py_update_def)

lemma py_range_non_vide: "0 < n \<Longrightarrow> \<exists>r. py_range n = 0 # r"
  by (cases n) (simp_all add: py_range_def upt_conv_Cons del: upt_Suc)

lemma boucle_cong:
  "(\<And>x st. x \<in> set xs \<Longrightarrow> f x st = f' x st) \<Longrightarrow> boucle f xs st = boucle f' xs st"
  by (induction xs arbitrary: st) (auto split: sum.splits)

lemma degre_sommet_Inr:
  assumes "- int (length g) \<le> s" "s < int (length g)"
  shows "\<exists>r. degre_sommet g s = Inr r"
proof -
  from py_index_dans [OF assms] obtain k where k: "k < length g" "py_index g s = Inr (g ! k)"
    by auto
  have "\<exists>r. boucle (\<lambda>i deg. res_bind (entree g s i) (\<lambda>w. Inr (if w \<noteq> Infini then deg + 1 else deg)))
         (py_range (length (g ! k))) (0::nat) = Inr r \<and> True"
  proof (rule boucle_total [where P = "\<lambda>_. True"])
    fix x and a :: nat
    assume "x \<in> set (py_range (length (g ! k)))"
    from dans_py_range [OF this] obtain j where "j < length (g ! k)" "x = int j" by auto
    then show "\<exists>b. res_bind (entree g s x) (\<lambda>w. Inr (if w \<noteq> Infini then a + 1 else a)) = Inr b \<and> True"
      using k by (simp add: entree_def)
  qed simp
  then show ?thesis using k by (simp add: degre_sommet_def)
qed

lemma successeurs_Inr:
  assumes "carree g" "- int (length g) \<le> s" "s < int (length g)"
  shows "\<exists>r. successeurs g s = Inr r"
proof -
  from py_index_dans [OF assms(2,3)] obtain k where k: "k < length g" "py_index g s = Inr (g ! k)"
    by auto
  have "\<exists>r. boucle (\<lambda>i succs. res_bind (entree g s i) (\<lambda>w. Inr (if w \<noteq> Infini then succs @ [i] else succs)))
         (py_range (length g)) [] = Inr r \<and> True"
  proof (rule boucle_total [where P = "\<lambda>_. True"])
    fix x and a :: "sommet list"
    assume "x \<in> set (py_range (length g))"
    from dans_py_range [OF this] obtain j where "j < length g" "x = int j" by auto
    then show "\<exists>b. res_bind (entree g s x) (\<lambda>w. Inr (if w \<noteq> Infini then a @ [x] else a)) = Inr b \<and> True"
      using k carree_ligne [OF assms(1) k(1)] by (simp add: entree_def)
  qed simp
  then show ?thesis by (simp add: successeurs_def nb_sommets_def)
qed

lemma predecesseurs_Inr:
  assumes "carree g" "- int (length g) \<le> s" "s < int (length g)"
  shows "\<exists>r. predecesseurs g s = Inr r"
proof -
  have "\<exists>r. boucle (\<lambda>i preds. res_bind (entree g i s) (\<lambda>w. Inr (if w \<noteq> Infini then preds @ [i] else preds)))
         (py_range (length g)) [] = Inr r \<and> True"
  proof (rule boucle_total [where P = "\<lambda>_. True"])
    fix x and a :: "sommet list"
    assume "x \<in> set (py_range (length g))"
    from dans_py_range [OF this] obtain j where j: "j < length g" "x = int j" by auto
    from py_index_dans [of "g ! j" s] assms(2,3) carree_ligne [OF assms(1) j(1)]
    obtain k where "py_index (g ! j) s = Inr (g ! j ! k)" by auto
    then show "\<exists>b. res_bind (entree g x s) (\<lambda>w. Inr (if w \<noteq> Infini then a @ [x] else a)) = Inr b \<and> True"
      using j by (simp add: entree_def)
  qed simp
  then show ?thesis by (simp add: predecesseurs_def nb_sommets_def)
qed

lemma degre_sommet_hors:
  "s < - int (length g) \<or> int (length g) \<le> s \<Longrightarrow> degre_sommet g s = Inl IndexError"
  by (simp add: degre_sommet_def py_index_hors)

lemma successeurs_hors:
  assumes "g \<noteq> []" "s < - int (length g) \<or> int (length g) \<le> s"
  shows "successeurs g s = Inl IndexError"
proof -
  from py_range_non_vide [of "length g"] assms(1) obtain r where "py_range (length g) = 0 # r"
    by auto
  then show ?thesis
    using assms(2) by (simp add: successeurs_def nb_sommets_def entree_def py_index_hors)
qed

lemma predecesseurs_hors:
  assumes "carree g" "g \<noteq> []" "s < - int (length g) \<or> int (length g) \<le> s"
  shows "predecesseurs g s = Inl IndexError"
proof -
  from py_range_non_vide [of "length g"] assms(2) obtain r where r: "py_range (length g) = 0 # r"
    by auto
  have "py_index g 0 = Inr (g ! 0)"
    using assms(2) py_index_nat [of 0 g] by simp
  moreover have "py_index (g ! 0) s = Inl IndexError"
    using assms carree_ligne [of g 0] by (intro py_index_hors) auto
  ultimately show ?thesis
    by (simp add: predecesseurs_def nb_sommets_def entree_def r)
qed

lemma calculPCCSommet_hors:
  "s < - int (length g) \<or> int (length g) \<le> s \<Longrightarrow> calculPCCSommet g s = Inl IndexError"
  by (simp add: calculPCCSommet_def etat_initial_def nb_sommets_def py_update_hors)

lemma calculPCCSommet_negatif:
  "- int (length g) \<le> s \<Longrightarrow> s < 0 \<Longrightarrow> calculPCCSommet g s = calculPCCSommet g (int (length g) + s)"
  using py_update_negatif [of "replicate (length g) Infini" s "Fin 0"]
  by (simp add: calculPCCSommet_def etat_initial_def nb_sommets_def)

lemma degre_sommet_negatif:
  "- int (length g) \<le> s \<Longrightarrow> s < 0 \<Longrightarrow> degre_sommet g s = degre_sommet g (int (length g) + s)"
  by (simp add: degre_sommet_def entree_def py_index_negatif)

lemma successeurs_negatif:
  "- int (length g) \<le> s \<Longrightarrow> s < 0 \<Longrightarrow> successeurs g s = successeurs g (int (length g) + s)"
  by (simp add: successeurs_def entree_def py_index_negatif)

lemma predecesseurs_negatif:
  assumes "carree g" "- int (length g) \<le> s" "s < 0"
  shows "predecesseurs g s = predecesseurs g (int (length g) + s)"
  unfolding predecesseurs_def nb_sommets_def
proof (rule boucle_cong)
  fix x and st :: "sommet list"
  assume "x \<in> set (py_range (length g))"
  from dans_py_range [OF this] obtain j where j: "j < length g" "x = int j" by auto
  have "py_index (g ! j) s = py_index (g ! j) (int (length g) + s)"
    using py_index_negatif [of "g ! j" s] assms carree_ligne [OF assms(1) j(1)] by simp
  then show "res_bind (entree g x s) (\<lambda>w. Inr (if w \<noteq> Infini then st @ [x] else st))
     = res_bind (entree g x (int (length g) + s)) (\<lambda>w. Inr (if w \<noteq> Infini then st @ [x] else st))"
    using j by (simp add: entree_def)
qed

section \<open>Diameter\<close>

lemma py_max_Max: "xs \<noteq> [] \<Longrightarrow> py_max xs = Inr (Max (set xs))"
proof (cases xs)
  case Nil
  then show "xs \<noteq> [] \<Longrightarrow> ?thesis" by simp
next
  case (Cons x ys)
  have "(\<lambda>y best. if best < y then y else best) = (max :: 'a \<Rightarrow> 'a \<Rightarrow> 'a)"
    by (intro ext) (auto simp: max_def)
  then show ?thesis
    using Cons Max.set_eq_fold [of x ys] by simp
qed

lemma Infini_plus_grand [simp]: "x \<le> Infini"
  by (cases x) simp_all

lemma diametre_prefixe:
  assumes "\<forall>s<m. calculPCCSommet g (int s) = Inr (D ! s, P ! s) \<and> D ! s \<noteq> []"
  shows "boucle (\<lambda>s max_distance.
        res_bind (calculPCCSommet g s) (\<lambda>(distances, _).
          res_bind (py_max distances) (\<lambda>m. Inr (max max_distance m))))
       (py_range m) (Fin 0) = Inr (Max (insert (Fin 0) (\<Union>s<m. set (D ! s))))"
  using assms
proof (induction m)
  case 0
  then show ?case by simp
next
  case (Suc m)
  let ?A = "insert (Fin 0) (\<Union>s<m. set (D ! s))"
  have a: "calculPCCSommet g (int m) = Inr (D ! m, P ! m)" "D ! m \<noteq> []"
    using Suc.prems by auto
  have "insert (Fin 0) (\<Union>s<Suc m. set (D ! s)) = ?A \<union> set (D ! m)"
    by (auto simp: less_Suc_eq)
  moreover have "Max (?A \<union> set (D ! m)) = max (Max ?A) (Max (set (D ! m)))"
    using a(2) by (intro Max_Un) auto
  ultimately show ?case
    using Suc a by (simp add: py_range_Suc boucle_append py_max_Max)
qed

text \<open>
  C5 as the code has it: the diameter is the greatest of 0 and all entries of the distance
  matrix, the infinite ones included; it is infinite as soon as one entry is.
\<close>

theorem diametre_maximum:
  assumes "carree g"
  shows "\<exists>D P. calculPCCTousSommets g = Inr (D, P)
     \<and> diametre \<lparr>graphe = g, algoPCC = AlgoDijkstra g\<rparr>
         = Inr (Max (insert (Fin 0) (\<Union>ligne \<in> set D. set ligne)))
     \<and> ((\<exists>ligne \<in> set D. Infini \<in> set ligne) \<longrightarrow>
          diametre \<lparr>graphe = g, algoPCC = AlgoDijkstra g\<rparr> = Inr Infini)"
proof -
  from tous_sommets_total [OF assms] obtain D P where t: "calculPCCTousSommets g = Inr (D, P)"
    by force
  then have l: "length D = length g" "length P = length g"
    and r: "\<forall>s<length g. calculPCCSommet g (int s) = Inr (D ! s, P ! s)"
    using tous_sommets_prefixe [of g "length g" D P]
    by (simp_all add: calculPCCTousSommets_def nb_sommets_def)
  have ne: "D ! s \<noteq> []" if "s < length g" for s
    using calculPCCSommet_total [OF assms that] r that by auto
  have u: "(\<Union>s<length g. set (D ! s)) = (\<Union>ligne \<in> set D. set ligne)"
    using l(1) by (auto simp: set_conv_nth)
  have d: "diametre \<lparr>graphe = g, algoPCC = AlgoDijkstra g\<rparr>
         = Inr (Max (insert (Fin 0) (\<Union>ligne \<in> set D. set ligne)))"
    using diametre_prefixe [of "length g" g D P] r ne
    by (simp add: diametre_def nb_sommets_def u)
  have "Max (insert (Fin 0) (\<Union>ligne \<in> set D. set ligne)) = Infini"
    if "\<exists>ligne \<in> set D. Infini \<in> set ligne"
  proof (rule antisym)
    show "Infini \<le> Max (insert (Fin 0) (\<Union>ligne \<in> set D. set ligne))"
      using that by (intro Max_ge) auto
  qed simp
  with t d show ?thesis by auto
qed

theorem diametre_maximum_witness:
  "carree [[Infini, Fin 1], [Fin 1, Infini]]
   \<and> diametre \<lparr>graphe = [[Infini, Fin 1], [Fin 1, Infini]],
                 algoPCC = AlgoDijkstra [[Infini, Fin 1], [Fin 1, Infini]]\<rparr>
       = Inr (Max {Fin 0, Fin 1})"
proof -
  let ?g = "[[Infini, Fin 1], [Fin 1, Infini]]"
  have c: "carree ?g" by (simp add: carree_def)
  have t: "calculPCCTousSommets ?g = Inr ([[Fin 0, Fin 1], [Fin 1, Fin 0]], [[None, Some 0], [Some 1, None]])"
    by code_simp
  have e: "insert (Fin 0) (\<Union>ligne \<in> set [[Fin 0, Fin 1], [Fin 1, Fin 0]]. set ligne) = {Fin 0, Fin 1}"
    by auto
  from diametre_maximum [OF c] t e show ?thesis using c by auto
qed

theorem diametre_infini_counterexample:
  "calculPCCTousSommets [[Infini, Infini], [Infini, Infini]]
     = Inr ([[Fin 0, Infini], [Infini, Fin 0]], [[None, None], [None, None]])
   \<and> diametre \<lparr>graphe = [[Infini, Infini], [Infini, Infini]],
                 algoPCC = AlgoDijkstra [[Infini, Infini], [Infini, Infini]]\<rparr> = Inr Infini"
  by code_simp

section \<open>Symmetrization\<close>

lemma boucle_etablit:
  assumes "I st"
    and "\<And>j st. j < k \<Longrightarrow> I st \<Longrightarrow>
           \<exists>st'. f (int j) st = Inr st' \<and> I st' \<and> (\<forall>x \<in> e j. S x st') \<and> (\<forall>x. S x st \<longrightarrow> S x st')"
  shows "\<exists>st'. boucle f (py_range k) st = Inr st' \<and> I st'
           \<and> (\<forall>j<k. \<forall>x \<in> e j. S x st') \<and> (\<forall>x. S x st \<longrightarrow> S x st')"
  using assms
proof (induction k)
  case 0
  then show ?case by simp
next
  case (Suc k)
  have "\<exists>st'. boucle f (py_range k) st = Inr st' \<and> I st'
           \<and> (\<forall>j<k. \<forall>x \<in> e j. S x st') \<and> (\<forall>x. S x st \<longrightarrow> S x st')"
    by (rule Suc.IH [OF Suc.prems(1)]) (use Suc.prems(2) in auto)
  then obtain m where m: "boucle f (py_range k) st = Inr m" "I m"
    "\<forall>j<k. \<forall>x \<in> e j. S x m" "\<forall>x. S x st \<longrightarrow> S x m"
    by auto
  from Suc.prems(2) [of k m] m(2)
  obtain st' where st': "f (int k) m = Inr st'" "I st'" "\<forall>x \<in> e k. S x st'" "\<forall>x. S x m \<longrightarrow> S x st'"
    by auto
  have "boucle f (py_range (Suc k)) st = Inr st'"
    using m(1) st'(1) by (simp add: py_range_Suc boucle_append)
  moreover have "\<forall>j<Suc k. \<forall>x \<in> e j. S x st'"
    using m(3) st'(3,4) by (auto simp: less_Suc_eq)
  ultimately show ?case
    using st'(2,4) m(4) by auto
qed

lemma ecrire_nat:
  "i < length m \<Longrightarrow> j < length (m ! i) \<Longrightarrow> ecrire m (int i) (int j) w = Inr (m[i := (m ! i)[j := w]])"
  by (simp add: ecrire_def)

lemma etape_symetrique:
  assumes g: "carree g" "\<forall>a<length g. \<forall>b<length g. g ! a ! b = g ! b ! a"
    and c: "conforme g ms" and ij: "i < length g" "j < length g"
  shows "\<exists>ms'. res_bind (entree g (int i) (int j)) (\<lambda>w.
             if w \<noteq> Infini then res_bind (ecrire ms (int i) (int j) w) (\<lambda>ms'. ecrire ms' (int j) (int i) w)
             else Inr ms) = Inr ms'
          \<and> conforme g ms' \<and> (\<forall>x \<in> {(i, j)}. ms' ! fst x ! snd x = g ! fst x ! snd x)
          \<and> (\<forall>x. fst x < length g \<and> snd x < length g \<and> ms ! fst x ! snd x = g ! fst x ! snd x
                 \<longrightarrow> fst x < length g \<and> snd x < length g \<and> ms' ! fst x ! snd x = g ! fst x ! snd x)"
proof -
  let ?n = "length g"
  have e: "entree g (int i) (int j) = Inr (g ! i ! j)"
    using ij carree_ligne [OF g(1) ij(1)] by (simp add: entree_nat)
  have l: "length ms = ?n" "\<And>a. a < ?n \<Longrightarrow> length (ms ! a) = ?n"
    using c by (auto simp: conforme_def)
  have v: "\<And>a b. a < ?n \<Longrightarrow> b < ?n \<Longrightarrow> ms ! a ! b = g ! a ! b \<or> ms ! a ! b = Infini"
    using c by (auto simp: conforme_def)
  show ?thesis
  proof (cases "g ! i ! j = Infini")
    case True
    with v [OF ij] have "ms ! i ! j = g ! i ! j" by auto
    with True e c show ?thesis by simp
  next
    case False
    define w where "w = g ! i ! j"
    define s1 where "s1 = ms[i := (ms ! i)[j := w]]"
    define s2 where "s2 = s1[j := (s1 ! j)[i := w]]"
    have w: "w = g ! j ! i" using g(2) ij by (simp add: w_def)
    have l1: "length s1 = ?n" "\<And>a. a < ?n \<Longrightarrow> length (s1 ! a) = ?n"
      using l ij by (auto simp: s1_def nth_list_update)
    have e1: "ecrire ms (int i) (int j) w = Inr s1"
      using ij l by (simp add: ecrire_nat s1_def)
    have e2: "ecrire s1 (int j) (int i) w = Inr s2"
      using ij l1 by (simp add: ecrire_nat s2_def)
    have val: "s2 ! a ! b = (if (a = i \<and> b = j) \<or> (a = j \<and> b = i) then w else ms ! a ! b)"
      if "a < ?n" "b < ?n" for a b
      using that ij l l1 by (auto simp: s2_def s1_def nth_list_update)
    have l2: "length s2 = ?n" "\<And>a. a < ?n \<Longrightarrow> length (s2 ! a) = ?n"
      using l1 ij by (auto simp: s2_def nth_list_update)
    have "conforme g s2"
      unfolding conforme_def using l2 val v w by (auto simp: w_def)
    moreover have "s2 ! i ! j = g ! i ! j"
      using val [OF ij] by (simp add: w_def)
    moreover have "s2 ! a ! b = g ! a ! b" if "a < ?n" "b < ?n" "ms ! a ! b = g ! a ! b" for a b
      using val [OF that(1,2)] that(3) w by (auto simp: w_def)
    ultimately show ?thesis
      using e e1 e2 False by (simp add: w_def)
  qed
qed



section \<open>Components\<close>

declare parcours_desc.simps [simp del] parcours_asc.simps [simp del]

lemma marquer_fil:
  "marquer vs (fil, vus) = (fil', vus') \<Longrightarrow> set fil' \<subseteq> set fil \<union> set vs"
proof (induction vs arbitrary: fil vus)
  case Nil
  then show ?case by (simp add: marquer_def)
next
  case (Cons v vs)
  show ?case
  proof (cases "v \<in> vus")
    case True
    with Cons.prems have "marquer vs (fil, vus) = (fil', vus')"
      by (simp add: marquer_def)
    from Cons.IH [OF this] show ?thesis by auto
  next
    case False
    with Cons.prems have "marquer vs (fil @ [v], insert v vus) = (fil', vus')"
      by (simp add: marquer_def)
    from Cons.IH [OF this] show ?thesis by auto
  qed
qed

lemma parcours_desc_bornes:
  "carree g \<Longrightarrow> set fil \<subseteq> {0..<int (length g)} \<Longrightarrow> descs \<subseteq> {0..<int (length g)} \<Longrightarrow>
         \<exists>D. parcours_desc g fil descs = Inr D \<and> D \<subseteq> {0..<int (length g)}"
proof (induction g fil descs rule: parcours_desc.induct)
  case (1 g fil descs)
  show ?case
  proof (cases fil)
    case Nil
    with "1.prems" show ?thesis
      by (subst parcours_desc.simps) simp
  next
    case (Cons scour reste)
    with "1.prems" have "0 \<le> scour" "scour < int (length g)" by auto
    with successeurs_Inr [of g scour] "1.prems"(1) obtain succs where s: "successeurs g scour = Inr succs"
      by auto
    obtain fil' descs' where m: "marquer succs (reste, descs) = (fil', descs')"
      by (cases "marquer succs (reste, descs)")
    have b: "set succs \<subseteq> {0..<int (length g)}"
      by (rule successeurs_bornes [OF s])
    have "set fil' \<subseteq> {0..<int (length g)}"
      using marquer_fil [OF m] b "1.prems"(2) Cons by auto
    moreover have "descs' \<subseteq> {0..<int (length g)}"
      using marquer_vus [OF m] b "1.prems"(3) by auto
    ultimately have "\<exists>D. parcours_desc g fil' descs' = Inr D \<and> D \<subseteq> {0..<int (length g)}"
      using "1.IH" [OF Cons s m [symmetric] "1.prems"(1)] by simp
    then show ?thesis
      using Cons s m by (subst parcours_desc.simps) simp
  qed
qed

lemma parcours_asc_bornes:
  "carree g \<Longrightarrow> set fil \<subseteq> {0..<int (length g)} \<Longrightarrow> ascs \<subseteq> {0..<int (length g)} \<Longrightarrow>
         \<exists>A. parcours_asc g fil ascs = Inr A \<and> A \<subseteq> {0..<int (length g)}"
proof (induction g fil ascs rule: parcours_asc.induct)
  case (1 g fil ascs)
  show ?case
  proof (cases fil)
    case Nil
    with "1.prems" show ?thesis
      by (subst parcours_asc.simps) simp
  next
    case (Cons scour reste)
    with "1.prems" have "0 \<le> scour" "scour < int (length g)" by auto
    with predecesseurs_Inr [of g scour] "1.prems"(1) obtain preds where s: "predecesseurs g scour = Inr preds"
      by auto
    obtain fil' ascs' where m: "marquer preds (reste, ascs) = (fil', ascs')"
      by (cases "marquer preds (reste, ascs)")
    have b: "set preds \<subseteq> {0..<int (length g)}"
      by (rule predecesseurs_bornes [OF s])
    have "set fil' \<subseteq> {0..<int (length g)}"
      using marquer_fil [OF m] b "1.prems"(2) Cons by auto
    moreover have "ascs' \<subseteq> {0..<int (length g)}"
      using marquer_vus [OF m] b "1.prems"(3) by auto
    ultimately have "\<exists>A. parcours_asc g fil' ascs' = Inr A \<and> A \<subseteq> {0..<int (length g)}"
      using "1.IH" [OF Cons s m [symmetric] "1.prems"(1)] by simp
    then show ?thesis
      using Cons s m by (subst parcours_asc.simps) simp
  qed
qed

lemma cfc_sommet_bornes:
  assumes "carree g" "s < length g"
  shows "\<exists>C. cfc_sommet g (int s) = Inr C \<and> int s \<in> C \<and> C \<subseteq> {0..<int (length g)}"
proof -
  from parcours_desc_bornes [OF assms(1), of "[int s]" "{}"] assms(2)
  obtain D where D: "descendants g (int s) = Inr D" "D \<subseteq> {0..<int (length g)}"
    by (auto simp: descendants_def)
  from parcours_asc_bornes [OF assms(1), of "[int s]" "{}"] assms(2)
  obtain A where A: "ascendants g (int s) = Inr A" "A \<subseteq> {0..<int (length g)}"
    by (auto simp: ascendants_def)
  show ?thesis
    using D A assms(2) by (auto simp: cfc_sommet_def)
qed

lemma forme_carree: "forme n m \<Longrightarrow> carree m \<and> length m = n"
  by (simp add: forme_def carree_def)

lemma forme_ecrire:
  assumes "forme n m" "i < n" "j < n"
  shows "\<exists>m'. ecrire m (int i) (int j) w = Inr m' \<and> forme n m'"
proof -
  have l: "length m = n" "length (m ! i) = n"
    using assms by (auto simp: forme_def)
  have "forme n (m[i := (m ! i)[j := w]])"
    using assms(1) l by (auto simp: forme_def dest!: set_update_subset_insert [THEN subsetD])
  then show ?thesis
    using l assms(2,3) by (simp add: ecrire_nat)
qed

lemma graphe_symetrique_forme:
  assumes "carree g"
  shows "\<exists>ms. graphe_symetrique g = Inr ms \<and> forme (length g) ms"
proof -
  let ?n = "length g"
  let ?corps = "\<lambda>i j m. res_bind (entree g i j) (\<lambda>w.
             if w \<noteq> Infini then res_bind (ecrire m i j w) (\<lambda>m'. ecrire m' j i w)
             else Inr m)"
  have f0: "forme ?n (graphe_vide ?n)"
    by (simp add: forme_def graphe_vide_def)
  have "\<exists>ms. boucle (\<lambda>i m. boucle (?corps i) (py_range ?n) m) (py_range ?n) (graphe_vide ?n) = Inr ms
          \<and> forme ?n ms"
  proof (rule boucle_total [where P = "forme ?n", OF f0])
    fix x a
    assume x: "x \<in> set (py_range ?n)" and a: "forme ?n a"
    from dans_py_range [OF x] obtain i where i: "i < ?n" "x = int i" by auto
    show "\<exists>b. boucle (?corps x) (py_range ?n) a = Inr b \<and> forme ?n b"
    proof (rule boucle_total [where P = "forme ?n", OF a])
      fix y c
      assume y: "y \<in> set (py_range ?n)" and c: "forme ?n c"
      from dans_py_range [OF y] obtain j where j: "j < ?n" "y = int j" by auto
      have e: "entree g (int i) (int j) = Inr (g ! i ! j)"
        using i j carree_ligne [OF assms i(1)] by (simp add: entree_nat)
      from forme_ecrire [OF c i(1) j(1)] obtain m1 where m1: "ecrire c (int i) (int j) (g ! i ! j) = Inr m1"
        "forme ?n m1" by auto
      from forme_ecrire [OF m1(2) j(1) i(1)] obtain m2 where m2: "ecrire m1 (int j) (int i) (g ! i ! j) = Inr m2"
        "forme ?n m2" by auto
      show "\<exists>b. ?corps x y c = Inr b \<and> forme ?n b"
        using e m1 m2 c i j by simp
    qed
  qed
  then show ?thesis
    by (simp add: graphe_symetrique_def nb_sommets_def)
qed

lemma cc_sommet_bornes:
  assumes "carree g" "s < length g"
  shows "\<exists>C. cc_sommet g (int s) = Inr C \<and> int s \<in> C \<and> C \<subseteq> {0..<int (length g)}"
proof -
  from graphe_symetrique_forme [OF assms(1)] obtain ms where ms: "graphe_symetrique g = Inr ms"
    "forme (length g) ms" by auto
  from forme_carree [OF ms(2)] have "carree ms" "length ms = length g" by auto
  with cfc_sommet_bornes [of ms s] assms(2) ms(1) show ?thesis
    by (simp add: cc_sommet_def)
qed

lemma cc_avant:
  assumes "\<forall>s<m. cc_sommet g (int s) = Inr (c s)"
  shows "boucle (\<lambda>s_bis l. res_bind (cc_sommet g s_bis) (\<lambda>c. Inr (l @ [c]))) (py_range m) []
           = Inr (map c [0..<m])"
  using assms by (induction m) (simp_all add: py_range_Suc boucle_append)

lemma cc_graphe_prefixe:
  assumes "\<forall>s<m. cc_sommet g (int s) = Inr (c s)"
  shows "boucle (\<lambda>s acc.
        res_bind (boucle (\<lambda>s_bis l. res_bind (cc_sommet g s_bis) (\<lambda>c. Inr (l @ [c])))
                    (py_range (nat s)) []) (\<lambda>avant.
          res_bind (cc_sommet g s) (\<lambda>c.
            if count_list avant c < 1 then res_bind (cc_sommet g s) (\<lambda>c'. Inr (acc @ [c']))
            else Inr acc)))
       (py_range m) [] = Inr (map c (filter (\<lambda>s. c s \<notin> c ` {0..<s}) [0..<m]))"
  using assms
proof (induction m)
  case 0
  then show ?case by simp
next
  case (Suc m)
  have a: "boucle (\<lambda>s_bis l. res_bind (cc_sommet g s_bis) (\<lambda>c. Inr (l @ [c]))) (py_range m) []
           = Inr (map c [0..<m])"
    by (rule cc_avant) (use Suc.prems in auto)
  have b: "cc_sommet g (int m) = Inr (c m)"
    using Suc.prems by simp
  have c: "count_list (map c [0..<m]) (c m) < 1 \<longleftrightarrow> c m \<notin> c ` {0..<m}"
    using count_list_0_iff [of "map c [0..<m]" "c m"] by auto
  show ?case
    using Suc a b c by (simp add: py_range_Suc boucle_append)
qed

text \<open>The component of each vertex, as a total function on the vertices of a square matrix.\<close>

lemma cc_graphe_forme:
  assumes "carree g"
  shows "\<exists>c. (\<forall>s<length g. cc_sommet g (int s) = Inr (c s) \<and> int s \<in> c s \<and> c s \<subseteq> {0..<int (length g)})
           \<and> cc_graphe g = Inr (map c (filter (\<lambda>s. c s \<notin> c ` {0..<s}) [0..<length g]))"
proof -
  have "\<forall>s. \<exists>C. s < length g \<longrightarrow> cc_sommet g (int s) = Inr C \<and> int s \<in> C \<and> C \<subseteq> {0..<int (length g)}"
    using cc_sommet_bornes [OF assms] by blast
  from choice [OF this] obtain c where c: "\<forall>s. s < length g \<longrightarrow>
      cc_sommet g (int s) = Inr (c s) \<and> int s \<in> c s \<and> c s \<subseteq> {0..<int (length g)}"
    by blast
  then have p: "\<forall>s<length g. cc_sommet g (int s) = Inr (c s)"
    by blast
  have "cc_graphe g = Inr (map c (filter (\<lambda>s. c s \<notin> c ` {0..<s}) [0..<length g]))"
    unfolding cc_graphe_def nb_sommets_def by (rule cc_graphe_prefixe [OF p])
  with c show ?thesis
    by (intro exI [of _ c]) simp
qed

lemma une_composante:
  assumes c: "\<forall>s<n. int s \<in> c s \<and> c s \<subseteq> {0..<int n}"
    and l: "length (filter (\<lambda>s. c s \<notin> c ` {0..<s}) [0..<n]) = 1"
  shows "filter (\<lambda>s. c s \<notin> c ` {0..<s}) [0..<n] = [0] \<and> card (c 0) = n"
proof -
  let ?Q = "\<lambda>s. c s \<notin> c ` {0..<s}"
  have n: "0 < n"
  proof (rule ccontr)
    assume "\<not> 0 < n"
    then have "n = 0" by simp
    with l show False by simp
  qed
  then have u: "[0..<n] = 0 # [1..<n]" by (simp add: upt_conv_Cons)
  have f: "filter ?Q [0..<n] = 0 # filter ?Q [1..<n]"
    by (subst u) simp
  with l have e: "filter ?Q [1..<n] = []" by simp
  have tous: "c s = c 0" if "s < n" for s
    using that
  proof (induction s rule: less_induct)
    case (less s)
    show ?case
    proof (cases "s = 0")
      case False
      with less.prems have "s \<in> set [1..<n]" by simp
      with e have "\<not> ?Q s" by (simp add: filter_empty_conv)
      then have "c s \<in> c ` {0..<s}" by simp
      then obtain t where t: "t < s" "c s = c t" by (auto simp: image_iff)
      have "c t = c 0"
        by (rule less.IH [OF t(1)]) (use t(1) less.prems in simp)
      then show ?thesis by (simp only: t(2))
    qed simp
  qed
  have "c 0 = {0..<int n}"
  proof
    show "c 0 \<subseteq> {0..<int n}" using c n by simp
    show "{0..<int n} \<subseteq> c 0"
    proof
      fix x assume "x \<in> {0..<int n}"
      then have x: "nat x < n" "x = int (nat x)" by auto
      then have "int (nat x) \<in> c (nat x)" using c by blast
      then show "x \<in> c 0" using tous [OF x(1)] x(2) by simp
    qed
  qed
  then show ?thesis using f e by simp
qed

text \<open>
  C7: on a square matrix the connectivity test is true exactly when the list of connected
  components has one element, and then that component has as many elements as the graph has
  vertices.
\<close>

theorem est_connexe_une_composante:
  assumes "carree g"
  shows "\<exists>ccs. cc_graphe g = Inr ccs \<and> est_connexe g = Inr (length ccs = 1)
           \<and> (length ccs = 1 \<longrightarrow> (\<exists>C. ccs = [C] \<and> card C = nb_sommets g))"
proof -
  from cc_graphe_forme [OF assms] obtain c
    where c: "\<forall>s<length g. cc_sommet g (int s) = Inr (c s) \<and> int s \<in> c s \<and> c s \<subseteq> {0..<int (length g)}"
      and g: "cc_graphe g = Inr (map c (filter (\<lambda>s. c s \<notin> c ` {0..<s}) [0..<length g]))"
    by auto
  have "\<exists>C. map c (filter (\<lambda>s. c s \<notin> c ` {0..<s}) [0..<length g]) = [C] \<and> card C = nb_sommets g"
    if "length (map c (filter (\<lambda>s. c s \<notin> c ` {0..<s}) [0..<length g])) = 1"
    using une_composante [of "length g" c] c that by (simp add: nb_sommets_def)
  with g show ?thesis
    by (simp add: est_connexe_def)
qed

theorem est_connexe_une_composante_witness:
  "carree [[Infini, Fin 1], [Fin 1, Infini]]
   \<and> est_connexe [[Infini, Fin 1], [Fin 1, Infini]] = Inr True
   \<and> (\<exists>C. cc_graphe [[Infini, Fin 1], [Fin 1, Infini]] = Inr [C] \<and> card C = 2)"
proof -
  let ?g = "[[Infini, Fin 1], [Fin 1, Infini]]"
  have c: "carree ?g" by (simp add: carree_def)
  have e: "est_connexe ?g = Inr True" by code_simp
  from est_connexe_une_composante [OF c] e
  have "\<exists>C. cc_graphe ?g = Inr [C] \<and> card C = nb_sommets ?g"
    by auto
  then show ?thesis using c e by (simp add: nb_sommets_def numeral_2_eq_2)
qed

section \<open>The largest component\<close>

lemma boucle_etablit_liste:
  assumes "I st"
    and "\<And>x st. x \<in> set xs \<Longrightarrow> I st \<Longrightarrow>
           \<exists>st'. f x st = Inr st' \<and> I st' \<and> (\<forall>y \<in> e x. S y st') \<and> (\<forall>y. S y st \<longrightarrow> S y st')"
  shows "\<exists>st'. boucle f xs st = Inr st' \<and> I st'
           \<and> (\<forall>x \<in> set xs. \<forall>y \<in> e x. S y st') \<and> (\<forall>y. S y st \<longrightarrow> S y st')"
  using assms
proof (induction xs arbitrary: st)
  case Nil
  then show ?case by simp
next
  case (Cons x xs)
  from Cons.prems(2) [of x st] Cons.prems(1)
  obtain m where m: "f x st = Inr m" "I m" "\<forall>y \<in> e x. S y m" "\<forall>y. S y st \<longrightarrow> S y m"
    by auto
  have "\<exists>st'. boucle f xs m = Inr st' \<and> I st'
           \<and> (\<forall>x \<in> set xs. \<forall>y \<in> e x. S y st') \<and> (\<forall>y. S y m \<longrightarrow> S y st')"
    by (rule Cons.IH [OF m(2)]) (use Cons.prems(2) in auto)
  then obtain st' where st': "boucle f xs m = Inr st'" "I st'"
    "\<forall>x \<in> set xs. \<forall>y \<in> e x. S y st'" "\<forall>y. S y m \<longrightarrow> S y st'"
    by auto
  have "boucle f (x # xs) st = Inr st'"
    using m(1) st'(1) by simp
  moreover have "\<forall>z \<in> set (x # xs). \<forall>y \<in> e z. S y st'"
    using m(3) st'(3,4) by auto
  ultimately show ?case
    using st'(2,4) m(4) by blast
qed

lemma fold_max_key:
  fixes k :: "'a \<Rightarrow> 'k::linorder"
  shows "fold (\<lambda>y best. if k best < k y then y else best) ys b \<in> insert b (set ys)
     \<and> k b \<le> k (fold (\<lambda>y best. if k best < k y then y else best) ys b)
     \<and> (\<forall>y \<in> set ys. k y \<le> k (fold (\<lambda>y best. if k best < k y then y else best) ys b))"
proof (induction ys arbitrary: b)
  case Nil
  then show ?case by simp
next
  case (Cons y ys)
  let ?b = "if k b < k y then y else b"
  from Cons [of ?b] have ih: "fold (\<lambda>y best. if k best < k y then y else best) ys ?b \<in> insert ?b (set ys)"
    "k ?b \<le> k (fold (\<lambda>y best. if k best < k y then y else best) ys ?b)"
    "\<forall>z \<in> set ys. k z \<le> k (fold (\<lambda>y best. if k best < k y then y else best) ys ?b)"
    by auto
  have "k b \<le> k ?b" "k y \<le> k ?b" by auto
  with ih show ?case
    by (auto simp del: insert_iff intro: order_trans split: if_splits)
qed

lemma py_max_key_max:
  fixes k :: "'a \<Rightarrow> 'k::linorder"
  assumes "xs \<noteq> []"
  shows "\<exists>m. py_max_key k xs = Inr m \<and> m \<in> set xs \<and> (\<forall>y \<in> set xs. k y \<le> k m)"
proof -
  from assms obtain x ys where xs: "xs = x # ys" by (cases xs) auto
  from fold_max_key [of k ys x] show ?thesis
    by (simp add: xs)
qed

lemma index_map_hors:
  "x \<notin> set vs \<Longrightarrow> fold (\<lambda>(new_index, old_index) d. d(old_index \<mapsto> new_index)) (zip js vs) d x = d x"
proof (induction vs arbitrary: js d)
  case Nil
  then show ?case by simp
next
  case (Cons v vs)
  then show ?case by (cases js) auto
qed

lemma index_map_val:
  "distinct vs \<Longrightarrow> length js = length vs \<Longrightarrow> a < length vs \<Longrightarrow>
   fold (\<lambda>(new_index, old_index) d. d(old_index \<mapsto> new_index)) (zip js vs) d (vs ! a) = Some (js ! a)"
proof (induction vs arbitrary: js d a)
  case Nil
  then show ?case by simp
next
  case (Cons v vs)
  from Cons.prems(2) obtain j js' where js: "js = j # js'" "length js' = length vs"
    by (cases js) auto
  show ?case
  proof (cases a)
    case 0
    have "fold (\<lambda>(new_index, old_index) d. d(old_index \<mapsto> new_index)) (zip js' vs) (d(v \<mapsto> j)) v
            = (d(v \<mapsto> j)) v"
      by (rule index_map_hors) (use Cons.prems(1) in simp)
    with 0 js show ?thesis
      by (simp del: fun_upd_apply) simp
  next
    case (Suc a')
    with Cons.prems js Cons.IH [of js' a'] show ?thesis by simp
  qed
qed

lemma successeurs_filtre:
  assumes "carree g" "i < length g" "m \<le> length g"
  shows "boucle (\<lambda>j succs. res_bind (entree g (int i) j) (\<lambda>w. Inr (if w \<noteq> Infini then succs @ [j] else succs)))
       (py_range m) [] = Inr (map int (filter (\<lambda>j. g ! i ! j \<noteq> Infini) [0..<m]))"
  using assms(3)
proof (induction m)
  case 0
  then show ?case by simp
next
  case (Suc m)
  have "entree g (int i) (int m) = Inr (g ! i ! m)"
    using Suc.prems assms(1,2) carree_ligne [OF assms(1,2)] by (simp add: entree_nat)
  with Suc show ?case
    by (simp add: py_range_Suc boucle_append)
qed

lemma successeurs_ensemble:
  assumes "carree g" "i < length g"
  shows "\<exists>succs. successeurs g (int i) = Inr succs
           \<and> set succs = {int j | j. j < length g \<and> g ! i ! j \<noteq> Infini}"
  using successeurs_filtre [OF assms le_refl]
  by (auto simp: successeurs_def nb_sommets_def)

lemma ecrire_valeurs:
  assumes "forme k m" "a < k" "b < k"
  shows "\<exists>m'. ecrire m (int a) (int b) w = Inr m' \<and> forme k m'
           \<and> (\<forall>a'<k. \<forall>b'<k. m' ! a' ! b' = (if a' = a \<and> b' = b then w else m ! a' ! b'))"
proof -
  have l: "length m = k" "\<And>i. i < k \<Longrightarrow> length (m ! i) = k"
    using assms(1) by (auto simp: forme_def)
  let ?m = "m[a := (m ! a)[b := w]]"
  have "ecrire m (int a) (int b) w = Inr ?m"
    using l assms(2,3) by (simp add: ecrire_nat)
  moreover have "forme k ?m"
    using assms(1) l assms(2) by (auto simp: forme_def dest!: set_update_subset_insert [THEN subsetD])
  moreover have "\<forall>a'<k. \<forall>b'<k. ?m ! a' ! b' = (if a' = a \<and> b' = b then w else m ! a' ! b')"
    using l assms(2,3) by (auto simp: nth_list_update)
  ultimately show ?thesis by blast
qed

lemma plus_grosse_remplissage:
  assumes g: "carree g"
    and ws: "distinct ws" "\<forall>w \<in> set ws. w < length g"
    and C: "C = int ` set ws"
    and M: "\<And>a. a < length ws \<Longrightarrow> M (int (ws ! a)) = Some (int a)"
  shows "\<exists>r. boucle (\<lambda>old_index mat.
            res_bind (py_cle M old_index) (\<lambda>new_index.
            res_bind (successeurs g old_index) (\<lambda>succs.
              boucle (\<lambda>succ mat.
                 if succ \<in> C then
                   res_bind (entree g old_index succ) (\<lambda>w.
                   res_bind (py_index mat new_index) (\<lambda>ligne.
                   res_bind (py_cle M succ) (\<lambda>k.
                   res_bind (py_update ligne k w) (\<lambda>ligne'. py_update mat new_index ligne'))))
                 else Inr mat)
                succs mat)))
            (map int ws) (graphe_vide (length ws)) = Inr r
          \<and> forme (length ws) r
          \<and> (\<forall>a<length ws. \<forall>b<length ws. r ! a ! b = g ! (ws ! a) ! (ws ! b))"
proof -
  let ?k = "length ws"
  let ?I = "\<lambda>m. forme ?k m \<and> (\<forall>a<?k. \<forall>b<?k. m ! a ! b = g ! (ws ! a) ! (ws ! b) \<or> m ! a ! b = Infini)"
  let ?S = "\<lambda>y m. fst y < ?k \<and> snd y < ?k \<and> m ! fst y ! snd y = g ! (ws ! fst y) ! (ws ! snd y)"
  let ?B = "\<lambda>old_index new_index succ mat.
                 if succ \<in> C then
                   res_bind (entree g old_index succ) (\<lambda>w.
                   res_bind (py_index mat new_index) (\<lambda>ligne.
                   res_bind (py_cle M succ) (\<lambda>k.
                   res_bind (py_update ligne k w) (\<lambda>ligne'. py_update mat new_index ligne'))))
                 else Inr mat"
  have dans: "ws ! a < length g" if "a < ?k" for a
    using ws(2) that by simp
  have inj: "a = b" if "a < ?k" "b < ?k" "int (ws ! a) = int (ws ! b)" for a b
    using that ws(1) by (simp add: nth_eq_iff_index_eq)
  have interne: "\<exists>m'. ?B (int (ws ! a)) (int a) succ m = Inr m' \<and> ?I m'
          \<and> (\<forall>y \<in> {(a, b) | b. b < ?k \<and> int (ws ! b) = succ}. ?S y m') \<and> (\<forall>y. ?S y m \<longrightarrow> ?S y m')"
    if a: "a < ?k" and m: "?I m" for a succ m
  proof (cases "succ \<in> C")
    case False
    then have "\<forall>b<?k. int (ws ! b) \<noteq> succ"
      using C by auto
    with False m show ?thesis by auto
  next
    case True
    then obtain b where b: "b < ?k" "succ = int (ws ! b)"
      using C by (auto simp: in_set_conv_nth)
    have e: "entree g (int (ws ! a)) succ = Inr (g ! (ws ! a) ! (ws ! b))"
      using b dans [OF a] dans [OF b(1)] carree_ligne [OF g dans [OF a]] by (simp add: entree_nat)
    from m have f: "forme ?k m" by simp
    from ecrire_valeurs [OF f a b(1), of "g ! (ws ! a) ! (ws ! b)"]
    obtain m' where m': "ecrire m (int a) (int b) (g ! (ws ! a) ! (ws ! b)) = Inr m'" "forme ?k m'"
      "\<forall>a'<?k. \<forall>b'<?k. m' ! a' ! b' = (if a' = a \<and> b' = b then g ! (ws ! a) ! (ws ! b) else m ! a' ! b')"
      by blast
    have "length m = ?k" using f by (simp add: forme_def)
    then have "py_index m (int a) = Inr (m ! a)" using a by simp
    then have r: "?B (int (ws ! a)) (int a) succ m = Inr m'"
      using True M [OF b(1)] b(2) e m'(1) by (simp add: py_cle_def ecrire_def)
    have i: "?I m'"
      using m m'(2,3) by auto
    have s1: "\<forall>y \<in> {(a, b) | b. b < ?k \<and> int (ws ! b) = succ}. ?S y m'"
      using inj b a m'(3) by auto
    have s2: "\<forall>y. ?S y m \<longrightarrow> ?S y m'"
      using m'(3) by auto
    from r i s1 s2 show ?thesis by blast
  qed
  have externe: "\<exists>m'. res_bind (py_cle M x) (\<lambda>new_index.
            res_bind (successeurs g x) (\<lambda>succs. boucle (?B x new_index) succs m)) = Inr m' \<and> ?I m'
          \<and> (\<forall>y \<in> {(a, b) | a b. a < ?k \<and> b < ?k \<and> int (ws ! a) = x}. ?S y m') \<and> (\<forall>y. ?S y m \<longrightarrow> ?S y m')"
    if x: "x \<in> set (map int ws)" and m: "?I m" for x m
  proof -
    from x obtain a where a: "a < ?k" "x = int (ws ! a)"
      by (auto simp: in_set_conv_nth)
    from successeurs_ensemble [OF g dans [OF a(1)]]
    obtain succs where su: "successeurs g (int (ws ! a)) = Inr succs"
      "set succs = {int j | j. j < length g \<and> g ! (ws ! a) ! j \<noteq> Infini}"
      by blast
    have "\<exists>m'. boucle (?B (int (ws ! a)) (int a)) succs m = Inr m' \<and> ?I m'
          \<and> (\<forall>succ \<in> set succs. \<forall>y \<in> {(a, b) | b. b < ?k \<and> int (ws ! b) = succ}. ?S y m')
          \<and> (\<forall>y. ?S y m \<longrightarrow> ?S y m')"
      by (rule boucle_etablit_liste [where I = ?I and S = ?S, OF m]) (rule interne [OF a(1)])
    then obtain m' where m': "boucle (?B (int (ws ! a)) (int a)) succs m = Inr m'" "?I m'"
      "\<forall>succ \<in> set succs. \<forall>y \<in> {(a, b) | b. b < ?k \<and> int (ws ! b) = succ}. ?S y m'"
      "\<forall>y. ?S y m \<longrightarrow> ?S y m'"
      by blast
    have ligne: "m' ! a ! b = g ! (ws ! a) ! (ws ! b)" if b: "b < ?k" for b
    proof (cases "g ! (ws ! a) ! (ws ! b) = Infini")
      case True
      from m'(2) a(1) b have "m' ! a ! b = g ! (ws ! a) ! (ws ! b) \<or> m' ! a ! b = Infini"
        by blast
      with True show ?thesis by auto
    next
      case False
      then have "int (ws ! b) \<in> set succs"
        using su(2) dans [OF b] by blast
      with m'(3) b have "?S (a, b) m'" by blast
      then show ?thesis by simp
    qed
    have "\<forall>y \<in> {(a', b) | a' b. a' < ?k \<and> b < ?k \<and> int (ws ! a') = x}. ?S y m'"
      using ligne a inj by auto
    moreover have "res_bind (py_cle M x) (\<lambda>new_index.
            res_bind (successeurs g x) (\<lambda>succs. boucle (?B x new_index) succs m)) = Inr m'"
      unfolding a(2) using M [OF a(1)] su(1) m'(1) by (simp add: py_cle_def)
    ultimately show ?thesis using m'(2,4) by blast
  qed
  have i0: "?I (graphe_vide ?k)"
    by (simp add: forme_def graphe_vide_def)
  have "\<exists>r. boucle (\<lambda>x m. res_bind (py_cle M x) (\<lambda>new_index.
            res_bind (successeurs g x) (\<lambda>succs. boucle (?B x new_index) succs m)))
          (map int ws) (graphe_vide ?k) = Inr r \<and> ?I r
        \<and> (\<forall>x \<in> set (map int ws). \<forall>y \<in> {(a, b) | a b. a < ?k \<and> b < ?k \<and> int (ws ! a) = x}. ?S y r)
        \<and> (\<forall>y. ?S y (graphe_vide ?k) \<longrightarrow> ?S y r)"
    by (rule boucle_etablit_liste [where I = ?I and S = ?S, OF i0]) (rule externe)
  then obtain r where r: "boucle (\<lambda>x m. res_bind (py_cle M x) (\<lambda>new_index.
            res_bind (successeurs g x) (\<lambda>succs. boucle (?B x new_index) succs m)))
          (map int ws) (graphe_vide ?k) = Inr r" "?I r"
      "\<forall>x \<in> set (map int ws). \<forall>y \<in> {(a, b) | a b. a < ?k \<and> b < ?k \<and> int (ws ! a) = x}. ?S y r"
    by blast
  have "r ! a ! b = g ! (ws ! a) ! (ws ! b)" if "a < ?k" "b < ?k" for a b
  proof -
    have "int (ws ! a) \<in> set (map int ws)" using that(1) by simp
    with r(3) that have "?S (a, b) r" by blast
    then show ?thesis by simp
  qed
  with r(1,2) show ?thesis by blast
qed



section \<open>Invariants of the single-source routine\<close>

lemma calculPCCSommet_invariant:
  assumes g: "carree g" and s: "s < length g"
    and init: "K (py_range (length g)) ((replicate (length g) Infini)[s := Fin 0]) (replicate (length g) None)"
    and pas: "\<And>u d p c d' p'. K u d p \<Longrightarrow> length d = length g \<Longrightarrow> length p = length g \<Longrightarrow>
        set u \<subseteq> {0..<int (length g)} \<Longrightarrow> distinct u \<Longrightarrow> c < length g \<Longrightarrow> int c \<in> set u \<Longrightarrow>
        (\<forall>y<length g. int y \<in> set u \<longrightarrow> d ! c \<le> d ! y) \<Longrightarrow>
        boucle (relacher g (int c)) (py_range (length g)) (d, p) = Inr (d', p') \<Longrightarrow>
        K (remove1 (int c) u) d' p'"
  shows "\<exists>d p. calculPCCSommet g (int s) = Inr (d, p) \<and> K [] d p
           \<and> length d = length g \<and> length p = length g"
proof -
  let ?n = "length g"
  let ?I = "\<lambda>st. length (fst (snd st)) = ?n \<and> length (snd (snd st)) = ?n
      \<and> set (fst st) \<subseteq> {0..<int ?n} \<and> distinct (fst st) \<and> K (fst st) (fst (snd st)) (snd (snd st))"
  have "\<exists>v. boucle_dijkstra g ?n (py_range ?n, (replicate ?n Infini)[s := Fin 0], replicate ?n None) = Inr v
          \<and> ?I ([], v)"
  proof (rule boucle_dijkstra_regle [where I = ?I])
    show "?I (py_range ?n, (replicate ?n Infini)[s := Fin 0], replicate ?n None)"
      using init by (auto simp: set_py_range py_range_def distinct_map)
  next
    fix st :: "sommet list \<times> vecteurs"
    assume I: "?I st" and ne: "fst st \<noteq> []"
    obtain u d p where st: "st = (u, d, p)" by (cases st) auto
    from I st have l: "length d = ?n" "length p = ?n" and u: "set u \<subseteq> {0..<int ?n}" "distinct u"
      and K: "K u d p" by auto
    from ne st have ne': "u \<noteq> []" by simp
    from iteration_regle [OF g refl l u(1) ne']
    obtain c d' p' where c: "c < ?n" "int c \<in> set u" "\<forall>y<?n. int y \<in> set u \<longrightarrow> d ! c \<le> d ! y"
      "boucle (relacher g (int c)) (py_range ?n) (d, p) = Inr (d', p')"
      "iteration g ?n (u, d, p) = Inr (remove1 (int c) u, d', p')"
      by blast
    have len: "length d' = ?n \<and> length p' = ?n"
      using relacher_boucle_regle [OF g refl c(1) l c(4), where P = "\<lambda>_ _. True"] by simp
    have "K (remove1 (int c) u) d' p'"
      by (rule pas [OF K l u c(1,2,3,4)])
    moreover have "set (remove1 (int c) u) \<subseteq> {0..<int ?n}"
      using u(1) set_remove1_subset [of "int c" u] by blast
    ultimately show "\<exists>st'. iteration g ?n st = Inr st' \<and> ?I st'"
      using c(5) len st u(2) by simp
  qed
  then show ?thesis
    using s by (auto simp: calculPCCSommet_def etat_initial_nat nb_sommets_def)
qed

lemma ajout_fini: "ajout a w \<noteq> Infini \<Longrightarrow> a \<noteq> Infini"
  by (cases a) auto

lemma moins_que_fini: "(a :: poids) < b \<Longrightarrow> a \<noteq> Infini"
  by (cases a; cases b) auto

text \<open>
  C3: on a square matrix and a source \<open>s\<close> in range, every vertex that no sequence of edges
  joins to \<open>s\<close> has distance \<open>inf\<close> and predecessor \<open>None\<close> in the vectors returned. Weights of
  any sign are allowed.
\<close>

theorem non_accessible_infini:
  assumes "carree g" "s < length g"
  shows "\<exists>d p. calculPCCSommet g (int s) = Inr (d, p)
           \<and> (\<forall>v<length g. \<not> accessible g s v \<longrightarrow> d ! v = Infini \<and> p ! v = None)"
proof -
  let ?n = "length g"
  let ?K = "\<lambda>(u :: sommet list) (d :: poids list) (p :: sommet option list).
      \<forall>v<?n. (d ! v \<noteq> Infini \<longrightarrow> accessible g s v) \<and> (d ! v = Infini \<longrightarrow> p ! v = None)"
  have "\<exists>d p. calculPCCSommet g (int s) = Inr (d, p) \<and> ?K [] d p \<and> length d = ?n \<and> length p = ?n"
  proof (rule calculPCCSommet_invariant [OF assms, where K = ?K])
    show "?K (py_range ?n) ((replicate ?n Infini)[s := Fin 0]) (replicate ?n None)"
      using assms(2) by (auto simp: nth_list_update accessible_def split: if_splits)
  next
    fix u :: "sommet list" and d p c d' p'
    assume K: "?K u d p" and l: "length d = ?n" "length p = ?n" and c: "c < ?n"
      and b: "boucle (relacher g (int c)) (py_range ?n) (d, p) = Inr (d', p')"
    have "?K u d' p' \<and> length d' = ?n \<and> length p' = ?n"
    proof (rule relacher_boucle_regle [OF assms(1) refl c l b, where P = "?K u"])
      show "?K u d p" by (rule K)
    next
      fix j d1 p1
      assume j: "j < ?n" and l1: "length d1 = ?n" "length p1 = ?n" and K1: "?K u d1 p1"
        and e: "g ! c ! j \<noteq> Infini" and a: "ajout (d1 ! c) (g ! c ! j) < d1 ! j"
      have f: "ajout (d1 ! c) (g ! c ! j) \<noteq> Infini"
        using a by (rule moins_que_fini)
      then have "d1 ! c \<noteq> Infini" by (rule ajout_fini)
      with K1 c have "accessible g s c" by blast
      moreover have "arete g c j"
        using c j e carree_ligne [OF assms(1) c] by (simp add: arete_def)
      ultimately have "accessible g s j"
        by (simp add: accessible_def)
      with K1 f l1 j show "?K u (d1[j := ajout (d1 ! c) (g ! c ! j)]) (p1[j := Some (int c)])"
        by (auto simp: nth_list_update)
    qed
    then show "?K (remove1 (int c) u) d' p'" by simp
  qed
  then show ?thesis by blast
qed

theorem non_accessible_infini_witness:
  "carree [[Infini, Fin 3, Infini], [Fin 3, Infini, Infini], [Infini, Infini, Infini]]
   \<and> \<not> accessible [[Infini, Fin 3, Infini], [Fin 3, Infini, Infini], [Infini, Infini, Infini]] 0 2
   \<and> (\<exists>d p. calculPCCSommet [[Infini, Fin 3, Infini], [Fin 3, Infini, Infini], [Infini, Infini, Infini]] 0
               = Inr (d, p) \<and> d ! 2 = Infini \<and> p ! 2 = None)"
proof -
  let ?g = "[[Infini, Fin 3, Infini], [Fin 3, Infini, Infini], [Infini, Infini, Infini]]"
  have c: "carree ?g" by (simp add: carree_def)
  have "v \<noteq> 2" if "rtranclp (arete ?g) 0 v" for v
    using that
  proof (induction rule: rtranclp_induct)
    case base
    then show ?case by simp
  next
    case (step y z)
    then have "y = 0 \<or> y = 1"
      by (auto simp: arete_def less_Suc_eq numeral_3_eq_3)
    with step(2) show ?case
      by (auto simp: arete_def)
  qed
  then have n: "\<not> accessible ?g 0 2"
    by (auto simp: accessible_def)
  from non_accessible_infini [OF c, of 0] n
  have "\<exists>d p. calculPCCSommet ?g 0 = Inr (d, p) \<and> d ! 2 = Infini \<and> p ! 2 = None"
    by auto
  with c n show ?thesis by blast
qed

section \<open>The routine over another arithmetic: rules\<close>

declare boucle_dijkstra_avec.simps [simp del]

lemma relacher_avec_ajout: "relacher_avec ajout = relacher"
  by (intro ext) (simp add: relacher_avec_def relacher_def)

lemma iteration_avec_ajout: "iteration_avec ajout = iteration"
  by (intro ext) (simp add: iteration_avec_def iteration_def relacher_avec_ajout)

lemma boucle_dijkstra_avec_ajout: "boucle_dijkstra_avec ajout g n st = boucle_dijkstra g n st"
proof (induction g n st rule: boucle_dijkstra.induct)
  case (1 g n st)
  show ?case
  proof (cases "fst st = []")
    case True
    then show ?thesis
      by (subst boucle_dijkstra_avec.simps, subst boucle_dijkstra.simps) simp
  next
    case False
    show ?thesis
    proof (cases "iteration g n st")
      case (Inl e)
      with False show ?thesis
        by (subst boucle_dijkstra_avec.simps, subst boucle_dijkstra.simps)
           (simp add: iteration_avec_ajout)
    next
      case (Inr st')
      from "1.IH" [OF False Inr] False Inr show ?thesis
        by (subst boucle_dijkstra_avec.simps, subst boucle_dijkstra.simps)
           (simp add: iteration_avec_ajout)
    qed
  qed
qed

lemma calculPCCSommet_avec_ajout: "calculPCCSommet_avec ajout g s = calculPCCSommet g s"
  by (simp add: calculPCCSommet_avec_def calculPCCSommet_def boucle_dijkstra_avec_ajout cong: res_bind_cong)

subsection \<open>Rules for its loops\<close>

lemma relacher_avec_nat:
  assumes "c < length g" "j < length (g ! c)" "c < length d" "j < length d" "j < length p"
  shows "relacher_avec addition g (int c) (int j) (d, p) =
     Inr (if g ! c ! j \<noteq> Infini \<and> addition (d ! c) (g ! c ! j) < d ! j
          then (d[j := addition (d ! c) (g ! c ! j)], p[j := Some (int c)]) else (d, p))"
  using assms by (simp add: relacher_avec_def entree_nat Let_def)

text \<open>
  The loop over \<open>neighbour\<close>: \<open>P\<close> is kept by every write, and \<open>E j\<close>, which no write undoes,
  holds once \<open>neighbour = j\<close> is past.
\<close>

lemma relacher_avec_boucle_regle:
  assumes g: "carree g" "length g = n" and c: "c < n"
    and l: "length d = n" "length p = n"
    and b: "boucle (relacher_avec addition g (int c)) (py_range n) (d, p) = Inr (d', p')"
    and P: "P d p"
    and ecrit: "\<And>j d1 p1. j < n \<Longrightarrow> length d1 = n \<Longrightarrow> length p1 = n \<Longrightarrow> P d1 p1 \<Longrightarrow>
        g ! c ! j \<noteq> Infini \<Longrightarrow> addition (d1 ! c) (g ! c ! j) < d1 ! j \<Longrightarrow>
        P (d1[j := addition (d1 ! c) (g ! c ! j)]) (p1[j := Some (int c)])
        \<and> E j (d1[j := addition (d1 ! c) (g ! c ! j)])
        \<and> (\<forall>x. E x d1 \<longrightarrow> E x (d1[j := addition (d1 ! c) (g ! c ! j)]))"
    and laisse: "\<And>j d1 p1. j < n \<Longrightarrow> length d1 = n \<Longrightarrow> length p1 = n \<Longrightarrow> P d1 p1 \<Longrightarrow>
        \<not> (g ! c ! j \<noteq> Infini \<and> addition (d1 ! c) (g ! c ! j) < d1 ! j) \<Longrightarrow> E j d1"
  shows "P d' p' \<and> length d' = n \<and> length p' = n \<and> (\<forall>j<n. E j d')"
proof -
  let ?I = "\<lambda>v :: vecteurs. length (fst v) = n \<and> length (snd v) = n \<and> P (fst v) (snd v)"
  let ?S = "\<lambda>x (v :: vecteurs). E x (fst v)"
  have "\<exists>st'. boucle (relacher_avec addition g (int c)) (py_range n) (d, p) = Inr st' \<and> ?I st'
           \<and> (\<forall>j<n. \<forall>x \<in> {j}. ?S x st') \<and> (\<forall>x. ?S x (d, p) \<longrightarrow> ?S x st')"
  proof (rule boucle_etablit [where I = ?I and S = ?S and e = "\<lambda>j. {j}"])
    show "?I (d, p)" using l P by simp
  next
    fix j and st :: vecteurs
    assume j: "j < n" and I: "?I st"
    obtain d1 p1 where st: "st = (d1, p1)" by (cases st)
    from I st have l1: "length d1 = n" "length p1 = n" and P1: "P d1 p1" by auto
    have r: "relacher_avec addition g (int c) (int j) (d1, p1) =
       Inr (if g ! c ! j \<noteq> Infini \<and> addition (d1 ! c) (g ! c ! j) < d1 ! j
            then (d1[j := addition (d1 ! c) (g ! c ! j)], p1[j := Some (int c)]) else (d1, p1))"
      using g c j l1 carree_ligne [OF g(1), of c] by (intro relacher_avec_nat) auto
    show "\<exists>st'. relacher_avec addition g (int c) (int j) st = Inr st' \<and> ?I st'
            \<and> (\<forall>x \<in> {j}. ?S x st') \<and> (\<forall>x. ?S x st \<longrightarrow> ?S x st')"
    proof (cases "g ! c ! j \<noteq> Infini \<and> addition (d1 ! c) (g ! c ! j) < d1 ! j")
      case True
      with ecrit [OF j l1 P1] r st l1 show ?thesis by simp
    next
      case False
      with laisse [OF j l1 P1] r st l1 P1 show ?thesis by simp
    qed
  qed
  with b show ?thesis by auto
qed

lemma relacher_avec_boucle_total:
  assumes g: "carree g" "length g = n" and c: "c < n"
    and l: "length d = n" "length p = n"
  shows "\<exists>d' p'. boucle (relacher_avec addition g (int c)) (py_range n) (d, p) = Inr (d', p')
           \<and> length d' = n \<and> length p' = n"
proof -
  let ?Q = "\<lambda>v :: vecteurs. length (fst v) = n \<and> length (snd v) = n"
  have "\<exists>v. boucle (relacher_avec addition g (int c)) (py_range n) (d, p) = Inr v \<and> ?Q v"
  proof (rule boucle_total [where P = ?Q])
    show "?Q (d, p)" using l by simp
  next
    fix x and a :: vecteurs
    assume x: "x \<in> set (py_range n)" and a: "?Q a"
    from dans_py_range [OF x] obtain j where j: "j < n" "x = int j" by auto
    obtain d1 p1 where a1: "a = (d1, p1)" by (cases a)
    have "relacher_avec addition g (int c) (int j) (d1, p1) =
       Inr (if g ! c ! j \<noteq> Infini \<and> addition (d1 ! c) (g ! c ! j) < d1 ! j
            then (d1[j := addition (d1 ! c) (g ! c ! j)], p1[j := Some (int c)]) else (d1, p1))"
      using g c j a a1 carree_ligne [OF g(1), of c] by (intro relacher_avec_nat) auto
    then show "\<exists>b. relacher_avec addition g (int c) x a = Inr b \<and> ?Q b"
      using a a1 j by simp
  qed
  then show ?thesis by auto
qed

lemma iteration_avec_regle:
  assumes g: "carree g" "length g = n"
    and l: "length d = n" "length p = n"
    and u: "set u \<subseteq> {0..<int n}" "u \<noteq> []"
  shows "\<exists>c d' p'. c < n \<and> int c \<in> set u \<and> (\<forall>y<n. int y \<in> set u \<longrightarrow> d ! c \<le> d ! y)
            \<and> boucle (relacher_avec addition g (int c)) (py_range n) (d, p) = Inr (d', p')
            \<and> length d' = n \<and> length p' = n
            \<and> iteration_avec addition g n (u, d, p) = Inr (remove1 (int c) u, d', p')"
proof -
  have "\<forall>y \<in> set u. py_index d y = Inr (d ! nat y)"
    using u(1) l by (auto simp: py_index_def)
  from py_min_key_total [OF this u(2)]
  obtain x where x: "py_min_key (py_index d) u = Inr x" "x \<in> set u"
    "\<forall>y \<in> set u. d ! nat x \<le> d ! nat y" by auto
  define c where "c = nat x"
  from x(2) u(1) have "0 \<le> x" "x < int n" by auto
  then have c: "c < n" "x = int c" by (auto simp: c_def)
  from relacher_avec_boucle_total [OF g c(1) l]
  obtain d' p' where b: "boucle (relacher_avec addition g (int c)) (py_range n) (d, p) = Inr (d', p')"
    "length d' = n" "length p' = n" by blast
  have "iteration_avec addition g n (u, d, p) = Inr (remove1 (int c) u, d', p')"
    using x(1) b(1) c by (simp add: iteration_avec_def)
  moreover have "\<forall>y<n. int y \<in> set u \<longrightarrow> d ! c \<le> d ! y"
    using x(3) c by fastforce
  ultimately show ?thesis using b c x(2) by blast
qed

lemma boucle_dijkstra_avec_regle:
  assumes "I st"
    and "\<And>st. I st \<Longrightarrow> fst st \<noteq> [] \<Longrightarrow> \<exists>st'. iteration_avec addition g n st = Inr st' \<and> I st'"
  shows "\<exists>v. boucle_dijkstra_avec addition g n st = Inr v \<and> I ([], v)"
  using assms
proof (induction addition g n st rule: boucle_dijkstra_avec.induct)
  case (1 addition g n st)
  show ?case
  proof (cases "fst st = []")
    case True
    with "1.prems"(1) show ?thesis
      by (subst boucle_dijkstra_avec.simps) (cases st, auto)
  next
    case False
    from "1.prems"(2) [OF "1.prems"(1) False]
    obtain st' where st': "iteration_avec addition g n st = Inr st'" "I st'" by auto
    from "1.IH" [OF False st'(1) st'(2) "1.prems"(2)]
    obtain v where "boucle_dijkstra_avec addition g n st' = Inr v" "I ([], v)" by auto
    then show ?thesis using False st'(1)
      by (subst boucle_dijkstra_avec.simps) simp
  qed
qed

lemma calculPCCSommet_avec_invariant:
  assumes g: "carree g" and s: "s < length g"
    and init: "K (py_range (length g)) ((replicate (length g) Infini)[s := Fin 0]) (replicate (length g) None)"
    and pas: "\<And>u d p c d' p'. K u d p \<Longrightarrow> length d = length g \<Longrightarrow> length p = length g \<Longrightarrow>
        set u \<subseteq> {0..<int (length g)} \<Longrightarrow> distinct u \<Longrightarrow> c < length g \<Longrightarrow> int c \<in> set u \<Longrightarrow>
        (\<forall>y<length g. int y \<in> set u \<longrightarrow> d ! c \<le> d ! y) \<Longrightarrow>
        boucle (relacher_avec addition g (int c)) (py_range (length g)) (d, p) = Inr (d', p') \<Longrightarrow>
        K (remove1 (int c) u) d' p'"
  shows "\<exists>d p. calculPCCSommet_avec addition g (int s) = Inr (d, p) \<and> K [] d p
           \<and> length d = length g \<and> length p = length g"
proof -
  let ?n = "length g"
  let ?I = "\<lambda>st. length (fst (snd st)) = ?n \<and> length (snd (snd st)) = ?n
      \<and> set (fst st) \<subseteq> {0..<int ?n} \<and> distinct (fst st) \<and> K (fst st) (fst (snd st)) (snd (snd st))"
  have "\<exists>v. boucle_dijkstra_avec addition g ?n
               (py_range ?n, (replicate ?n Infini)[s := Fin 0], replicate ?n None) = Inr v
          \<and> ?I ([], v)"
  proof (rule boucle_dijkstra_avec_regle [where I = ?I])
    show "?I (py_range ?n, (replicate ?n Infini)[s := Fin 0], replicate ?n None)"
      using init by (auto simp: set_py_range py_range_def distinct_map)
  next
    fix st :: "sommet list \<times> vecteurs"
    assume I: "?I st" and ne: "fst st \<noteq> []"
    obtain u d p where st: "st = (u, d, p)" by (cases st) auto
    from I st have l: "length d = ?n" "length p = ?n" and u: "set u \<subseteq> {0..<int ?n}" "distinct u"
      and K: "K u d p" by auto
    from ne st have ne': "u \<noteq> []" by simp
    from iteration_avec_regle [OF g refl l u(1) ne', of addition]
    obtain c d' p' where c: "c < ?n" "int c \<in> set u" "\<forall>y<?n. int y \<in> set u \<longrightarrow> d ! c \<le> d ! y"
      "boucle (relacher_avec addition g (int c)) (py_range ?n) (d, p) = Inr (d', p')"
      "length d' = ?n" "length p' = ?n"
      "iteration_avec addition g ?n (u, d, p) = Inr (remove1 (int c) u, d', p')"
      by blast
    have "K (remove1 (int c) u) d' p'"
      by (rule pas [OF K l u c(1,2,3,4)])
    moreover have "set (remove1 (int c) u) \<subseteq> {0..<int ?n}"
      using u(1) set_remove1_subset [of "int c" u] by blast
    ultimately show "\<exists>st'. iteration_avec addition g ?n st = Inr st' \<and> ?I st'"
      using c(5,6,7) st u(2) by simp
  qed
  then show ?thesis
    using s by (auto simp: calculPCCSommet_avec_def etat_initial_nat nb_sommets_def)
qed

section \<open>Paths retraced from the predecessor vector\<close>

lemma suit_ailleurs:
  "suit g p bp \<Longrightarrow> j \<notin> set bp \<Longrightarrow> suit g (p[j := x]) bp"
  by (induction g p bp rule: suit.induct) auto

lemma suit_marche: "suit g p bp \<Longrightarrow> marche g bp"
  by (induction g p bp rule: suit.induct) auto

lemma remonter_suit:
  "suit g p bp \<Longrightarrow> bp \<noteq> [] \<Longrightarrow> p ! last bp = None \<Longrightarrow> \<forall>x \<in> set bp. x < length p \<Longrightarrow>
   length bp \<le> k \<Longrightarrow> remonter p k (int (hd bp)) = Some (map int bp)"
proof (induction g p bp arbitrary: k rule: suit.induct)
  case (1 g p v u r)
  then obtain k' where k: "k = Suc k'" "length (u # r) \<le> k'"
    by (cases k) auto
  have "remonter p k' (int (hd (u # r))) = Some (map int (u # r))"
    by (rule "1.IH") (use "1.prems" k in auto)
  with "1.prems" k show ?case by simp
next
  case (2 g p v)
  then obtain k' where "k = Suc k'" by (cases k) auto
  with 2 show ?case by simp
next
  case (3 g p)
  then show ?case by simp
qed

lemma chemin_retour_suit:
  "suit g p bp \<Longrightarrow> bp \<noteq> [] \<Longrightarrow> carree g \<Longrightarrow> \<forall>x \<in> set bp. x < length g \<Longrightarrow>
   chemin_retour addition g (map int bp) = Some (poids_retour addition g bp)"
proof (induction g p bp rule: suit.induct)
  case (1 g p v u r)
  have a: "chemin_retour addition g (map int (u # r)) = Some (poids_retour addition g (u # r))"
    by (rule "1.IH") (use "1.prems" in auto)
  have e: "entree g (int u) (int v) = Inr (g ! u ! v)"
    using "1.prems" carree_ligne [of g u] by (simp add: entree_nat)
  from "1.prems"(1) obtain w where w: "g ! u ! v = Fin w"
    by (cases "g ! u ! v") auto
  show ?case
    using a e w by simp
qed simp_all

lemma ajout_croissant: "Fin 0 \<le> w \<Longrightarrow> a \<le> ajout a w"
  by (cases a; cases w) auto

lemma sous_fini: "(a :: poids) \<le> b \<Longrightarrow> b \<noteq> Infini \<Longrightarrow> a \<noteq> Infini"
  by (cases a; cases b) auto

lemma sans_recul_ajout: "sans_recul ajout g s"
  by (simp add: sans_recul_def ajout_croissant)

lemma poids_retour_arrondi:
  assumes idem: "\<forall>x y. arrondi x = Fin y \<longrightarrow> arrondi y = Fin y" and zero: "arrondi 0 = Fin 0"
  shows "poids_retour (ajout_arrondi arrondi) g bp = Fin a \<Longrightarrow> arrondi a = Fin a"
proof (induction "ajout_arrondi arrondi" g bp rule: poids_retour.induct)
  case (1 g v u r)
  from "1.prems" obtain x y where "poids_retour (ajout_arrondi arrondi) g (u # r) = Fin x"
    "g ! u ! v = Fin y"
    by (cases "poids_retour (ajout_arrondi arrondi) g (u # r)"; cases "g ! u ! v") auto
  with "1.prems" have "arrondi (x + y) = Fin a" by simp
  with idem show ?case by blast
next
  case (2 g v)
  with zero show ?case by simp
next
  case (3 g)
  with zero show ?case by simp
qed

text \<open>
  Every addition that rounds the exact sum, with a rounding that is monotone and leaves the
  numbers it returns unchanged, meets the condition \<open>sans_recul\<close>.
\<close>

lemma sans_recul_arrondi:
  assumes mono: "\<forall>x y. x \<le> y \<longrightarrow> arrondi x \<le> arrondi y"
    and idem: "\<forall>x y. arrondi x = Fin y \<longrightarrow> arrondi y = Fin y" and zero: "arrondi 0 = Fin 0"
  shows "sans_recul (ajout_arrondi arrondi) g s"
  unfolding sans_recul_def
proof (intro allI impI)
  fix bp j
  assume h: "marche_simple g s bp \<and> j < length g \<and> g ! hd bp ! j \<noteq> Infini \<and> Fin 0 \<le> g ! hd bp ! j"
  then obtain b where b: "g ! hd bp ! j = Fin b" "0 \<le> b"
    by (cases "g ! hd bp ! j") auto
  show "poids_retour (ajout_arrondi arrondi) g bp
          \<le> ajout_arrondi arrondi (poids_retour (ajout_arrondi arrondi) g bp) (g ! hd bp ! j)"
  proof (cases "poids_retour (ajout_arrondi arrondi) g bp")
    case (Fin a)
    from poids_retour_arrondi [OF idem zero Fin] have "arrondi a = Fin a" .
    moreover have "arrondi a \<le> arrondi (a + b)"
      using mono b(2) by simp
    ultimately show ?thesis
      using Fin b(1) by simp
  next
    case Infini
    then show ?thesis by simp
  qed
qed

lemma poids_retour_ajout_fini: "marche g bp \<Longrightarrow> poids_retour ajout g bp \<noteq> Infini"
proof (induction g bp rule: marche.induct)
  case (1 g v u r)
  then obtain a w where "poids_retour ajout g (u # r) = Fin a" "g ! u ! v = Fin w"
    by (cases "poids_retour ajout g (u # r)"; cases "g ! u ! v") auto
  then show ?case by simp
qed simp_all

lemma sans_debordement_ajout: "sans_debordement ajout g s"
  by (simp add: sans_debordement_def marche_simple_def poids_retour_ajout_fini)

lemma chemin_vers_moins:
  "chemin_vers addition g s u d p v \<Longrightarrow> set u' \<subseteq> set u \<Longrightarrow> chemin_vers addition g s u' d p v"
  unfolding chemin_vers_def by blast

lemma chemin_vers_marche:
  assumes "chemin_vers addition g s u d p v"
  shows "\<exists>bp. marche_simple g s bp \<and> hd bp = v \<and> poids_retour addition g bp = d ! v
           \<and> (\<forall>x \<in> set bp. d ! x \<noteq> Infini) \<and> (\<forall>x \<in> set (tl bp). int x \<notin> set u)"
  using assms unfolding chemin_vers_def marche_simple_def
  by (blast intro: suit_marche)

lemma marche_simple_prolonge:
  assumes "marche_simple g s bp" "j \<notin> set bp" "j < length g" "g ! hd bp ! j \<noteq> Infini"
  shows "marche_simple g s (j # bp)"
proof -
  from assms(1) obtain c r where "bp = c # r"
    unfolding marche_simple_def by (cases bp) auto
  with assms show ?thesis
    unfolding marche_simple_def by auto
qed

lemma chemin_vers_ailleurs:
  assumes "chemin_vers addition g s u d p v" "v \<noteq> j" "int j \<in> set u" "v < length d"
  shows "chemin_vers addition g s u (d[j := a]) (p[j := x]) v"
proof -
  from assms(1) obtain bp where bp: "bp \<noteq> []" "hd bp = v" "last bp = s" "distinct bp"
    "\<forall>x \<in> set bp. x < length g" "\<forall>x \<in> set (tl bp). int x \<notin> set u" "suit g p bp"
    "poids_retour addition g bp = d ! v" "\<forall>x \<in> set bp. d ! x \<noteq> Infini"
    unfolding chemin_vers_def by blast
  have hors: "j \<notin> set bp"
  proof
    assume "j \<in> set bp"
    then have "j = hd bp \<or> j \<in> set (tl bp)"
      using bp(1) by (cases bp) auto
    with bp(2,6) assms(2,3) show False by auto
  qed
  then have "suit g (p[j := x]) bp"
    using bp(7) by (simp add: suit_ailleurs)
  moreover have "poids_retour addition g bp = d[j := a] ! v"
    using bp(8) assms(2) by simp
  moreover have "\<forall>x \<in> set bp. d[j := a] ! x \<noteq> Infini"
  proof
    fix x assume x: "x \<in> set bp"
    then have "j \<noteq> x" using hors by auto
    then have "d[j := a] ! x = d ! x" by simp
    with bp(9) x show "d[j := a] ! x \<noteq> Infini" by simp
  qed
  ultimately show ?thesis
    unfolding chemin_vers_def using bp(1-6) by blast
qed

lemma chemin_vers_prolonge:
  assumes c: "chemin_vers addition g s u d p c" and cu: "int c \<notin> set u" and ju: "int j \<in> set u"
    and j: "j < length d" "j < length p" "j < length g" and e: "g ! c ! j \<noteq> Infini"
    and f: "addition (d ! c) (g ! c ! j) \<noteq> Infini"
  shows "chemin_vers addition g s u (d[j := addition (d ! c) (g ! c ! j)]) (p[j := Some (int c)]) j"
proof -
  from c obtain bp where bp: "bp \<noteq> []" "hd bp = c" "last bp = s" "distinct bp"
    "\<forall>x \<in> set bp. x < length g" "\<forall>x \<in> set (tl bp). int x \<notin> set u" "suit g p bp"
    "poids_retour addition g bp = d ! c" "\<forall>x \<in> set bp. d ! x \<noteq> Infini"
    unfolding chemin_vers_def by blast
  from bp(1,2) obtain r where r: "bp = c # r" by (cases bp) auto
  have hors: "j \<notin> set bp"
    using r bp(6) cu ju by auto
  let ?p = "p[j := Some (int c)]" and ?d = "d[j := addition (d ! c) (g ! c ! j)]"
  have "suit g ?p bp"
    using bp(7) hors by (simp add: suit_ailleurs)
  then have "suit g ?p (j # bp)"
    using r j e by simp
  moreover have "poids_retour addition g (j # bp) = ?d ! j"
    using r bp(8) j by simp
  moreover have "\<forall>x \<in> set (tl (j # bp)). int x \<notin> set u"
    using r bp(6) cu by auto
  moreover have "distinct (j # bp)" "last (j # bp) = s" "\<forall>x \<in> set (j # bp). x < length g"
    using hors bp(1,3,4,5) j by auto
  moreover have "\<forall>x \<in> set (j # bp). ?d ! x \<noteq> Infini"
  proof
    fix x assume x: "x \<in> set (j # bp)"
    show "?d ! x \<noteq> Infini"
    proof (cases "x = j")
      case True
      with f j show ?thesis by simp
    next
      case False
      then have "?d ! x = d ! x" by simp
      with bp(9) x False show ?thesis by simp
    qed
  qed
  ultimately show ?thesis
    unfolding chemin_vers_def by (intro exI [of _ "j # bp"]) simp
qed

lemma inv_dijkstra_initial:
  assumes "s < length g"
  shows "inv_dijkstra addition g s (py_range (length g)) ((replicate (length g) Infini)[s := Fin 0])
           (replicate (length g) None)"
proof -
  have "chemin_vers addition g s (py_range (length g)) ((replicate (length g) Infini)[s := Fin 0])
           (replicate (length g) None) s"
    unfolding chemin_vers_def using assms by (intro exI [of _ "[s]"]) simp
  moreover have "int v \<in> set (py_range (length g))" if "v < length g" for v
    using that by (simp add: py_range_def)
  ultimately show ?thesis
    using assms unfolding inv_dijkstra_def by (auto simp: nth_list_update)
qed

lemma inv_dijkstra_pas:
  assumes g: "carree g"
    and h0: "\<forall>w. addition Infini w = Infini"
    and pos: "\<forall>i<length g. \<forall>j<length g. g ! i ! j \<noteq> Infini \<longrightarrow> Fin 0 \<le> g ! i ! j"
    and rec: "sans_recul addition g s"
    and s: "s < length g"
    and J: "inv_dijkstra addition g s u d p" and l: "length d = length g" "length p = length g"
    and u: "set u \<subseteq> {0..<int (length g)}" "distinct u"
    and c: "c < length g" "int c \<in> set u"
    and mn: "\<forall>y<length g. int y \<in> set u \<longrightarrow> d ! c \<le> d ! y"
    and b: "boucle (relacher_avec addition g (int c)) (py_range (length g)) (d, p) = Inr (d', p')"
  shows "inv_dijkstra addition g s (remove1 (int c) u) d' p'"
proof -
  let ?n = "length g"
  let ?u = "remove1 (int c) u"
  let ?sd = "sans_debordement addition g s"
  have su: "set ?u = set u - {int c}"
    using u(2) by simp
  from J have J1: "d ! s = Fin 0" "p ! s = None"
    and J2: "int s \<in> set u \<Longrightarrow> \<forall>v<?n. v \<noteq> s \<longrightarrow> d ! v = Infini"
    and J3: "\<And>v y. v < ?n \<Longrightarrow> y < ?n \<Longrightarrow> int v \<notin> set u \<Longrightarrow> int y \<in> set u \<Longrightarrow> d ! v \<le> d ! y"
    and J4: "\<And>v. v < ?n \<Longrightarrow> d ! v \<noteq> Infini \<Longrightarrow> chemin_vers addition g s u d p v"
    and J5: "\<And>a b. ?sd \<Longrightarrow> a < ?n \<Longrightarrow> b < ?n \<Longrightarrow> int a \<notin> set u \<Longrightarrow> d ! a \<noteq> Infini \<Longrightarrow>
               g ! a ! b \<noteq> Infini \<Longrightarrow> d ! b \<noteq> Infini"
    unfolding inv_dijkstra_def by blast+
  have s_vu: "int s \<notin> set ?u"
  proof (cases "int s \<in> set u")
    case True
    have "c = s"
    proof (rule ccontr)
      assume "c \<noteq> s"
      with J2 [OF True] c(1) have "d ! c = Infini" by simp
      moreover have "d ! c \<le> d ! s" using mn s True by simp
      ultimately show False using J1(1) by simp
    qed
    then show ?thesis using su by simp
  next
    case False
    then show ?thesis using su by simp
  qed
  have avant: "d ! v \<le> d ! c" if "v < ?n" "int v \<notin> set ?u" for v
  proof (cases "v = c")
    case False
    with that su have "int v \<notin> set u" by simp
    from J3 [OF that(1) c(1) this c(2)] show ?thesis .
  qed simp
  have cu: "int c \<notin> set ?u" using su by simp
  let ?R = "\<lambda>d1 p1. (\<forall>v<?n. int v \<notin> set ?u \<longrightarrow> d1 ! v = d ! v \<and> p1 ! v = p ! v)
      \<and> (\<forall>y<?n. int y \<in> set ?u \<longrightarrow> d ! c \<le> d1 ! y)
      \<and> (\<forall>v<?n. d1 ! v \<noteq> Infini \<longrightarrow> chemin_vers addition g s ?u d1 p1 v)
      \<and> (\<forall>v<?n. d ! v \<noteq> Infini \<longrightarrow> d1 ! v \<noteq> Infini)"
  let ?E = "\<lambda>j (d1 :: poids list). ?sd \<and> d ! c \<noteq> Infini \<and> g ! c ! j \<noteq> Infini \<longrightarrow> d1 ! j \<noteq> Infini"
  have "?R d' p' \<and> length d' = ?n \<and> length p' = ?n \<and> (\<forall>j<?n. ?E j d')"
  proof (rule relacher_avec_boucle_regle [OF g refl c(1) l b, where P = ?R and E = ?E])
    show "?R d p"
    proof (intro conjI allI impI)
      fix y assume "y < ?n" "int y \<in> set ?u"
      then show "d ! c \<le> d ! y" using mn su by simp
    next
      fix v assume "v < ?n" "d ! v \<noteq> Infini"
      from J4 [OF this] show "chemin_vers addition g s ?u d p v"
        by (rule chemin_vers_moins) (use su in auto)
    qed simp_all
  next
    fix j d1 p1
    assume j: "j < ?n" and l1: "length d1 = ?n" "length p1 = ?n" and R: "?R d1 p1"
      and e: "g ! c ! j \<noteq> Infini" and a: "addition (d1 ! c) (g ! c ! j) < d1 ! j"
    from R have R1: "\<And>v. v < ?n \<Longrightarrow> int v \<notin> set ?u \<Longrightarrow> d1 ! v = d ! v \<and> p1 ! v = p ! v"
      and R2: "\<And>y. y < ?n \<Longrightarrow> int y \<in> set ?u \<Longrightarrow> d ! c \<le> d1 ! y"
      and R4: "\<And>v. v < ?n \<Longrightarrow> d1 ! v \<noteq> Infini \<Longrightarrow> chemin_vers addition g s ?u d1 p1 v"
      and R5: "\<And>v. v < ?n \<Longrightarrow> d ! v \<noteq> Infini \<Longrightarrow> d1 ! v \<noteq> Infini"
      by blast+
    let ?a = "addition (d1 ! c) (g ! c ! j)"
    have dc: "d1 ! c = d ! c" using R1 [OF c(1) cu] by simp
    have af: "?a \<noteq> Infini"
      using a by (rule moins_que_fini)
    have fini: "d1 ! c \<noteq> Infini"
    proof
      assume "d1 ! c = Infini"
      with h0 have "?a = Infini" by simp
      with af show False by simp
    qed
    from R4 [OF c(1) fini] have pc: "chemin_vers addition g s ?u d1 p1 c" .
    from chemin_vers_marche [OF pc] obtain bp where bp: "marche_simple g s bp" "hd bp = c"
      "poids_retour addition g bp = d1 ! c"
      by blast
    have "Fin 0 \<le> g ! c ! j" using pos c(1) j e by simp
    with rec bp j e have "d1 ! c \<le> ?a"
      unfolding sans_recul_def by metis
    then have croit: "d ! c \<le> ?a" using dc by simp
    have ju: "int j \<in> set ?u"
    proof (rule ccontr)
      assume n: "int j \<notin> set ?u"
      then have "d1 ! j = d ! j" using R1 [OF j] by simp
      moreover have "d ! j \<le> d ! c" using avant [OF j n] .
      ultimately have "d1 ! j \<le> ?a" using croit by simp
      with a show False by simp
    qed
    have "?R (d1[j := ?a]) (p1[j := Some (int c)])"
    proof (intro conjI allI impI)
      fix v assume v: "v < ?n" "int v \<notin> set ?u"
      then have "v \<noteq> j" using ju by auto
      with R1 [OF v] show "d1[j := ?a] ! v = d ! v" "p1[j := Some (int c)] ! v = p ! v"
        by simp_all
    next
      fix y assume y: "y < ?n" "int y \<in> set ?u"
      show "d ! c \<le> d1[j := ?a] ! y"
        using R2 [OF y] croit j l1 by (cases "y = j") simp_all
    next
      fix v assume v: "v < ?n" "d1[j := ?a] ! v \<noteq> Infini"
      show "chemin_vers addition g s ?u (d1[j := ?a]) (p1[j := Some (int c)]) v"
      proof (cases "v = j")
        case True
        show ?thesis
          unfolding True
          by (rule chemin_vers_prolonge [OF pc cu ju _ _ j e af]) (use j l1 in simp_all)
      next
        case False
        with v(2) have "d1 ! v \<noteq> Infini" by simp
        from R4 [OF v(1) this] show ?thesis
          by (rule chemin_vers_ailleurs) (use False ju v(1) l1 in simp_all)
      qed
    next
      fix v assume v: "v < ?n" "d ! v \<noteq> Infini"
      show "d1[j := ?a] ! v \<noteq> Infini"
        using R5 [OF v] af j l1 by (cases "v = j") simp_all
    qed
    moreover have "?E j (d1[j := ?a])"
      using af j l1 by simp
    moreover have "\<forall>x. ?E x d1 \<longrightarrow> ?E x (d1[j := ?a])"
    proof (intro allI impI)
      fix x assume "?E x d1" and h: "?sd \<and> d ! c \<noteq> Infini \<and> g ! c ! x \<noteq> Infini"
      then have "d1 ! x \<noteq> Infini" by blast
      then show "d1[j := ?a] ! x \<noteq> Infini"
        using af j l1 by (cases "x = j") simp_all
    qed
    ultimately show "?R (d1[j := ?a]) (p1[j := Some (int c)]) \<and> ?E j (d1[j := ?a])
        \<and> (\<forall>x. ?E x d1 \<longrightarrow> ?E x (d1[j := ?a]))"
      by blast
  next
    fix j d1 p1
    assume j: "j < ?n" and l1: "length d1 = ?n" "length p1 = ?n" and R: "?R d1 p1"
      and n: "\<not> (g ! c ! j \<noteq> Infini \<and> addition (d1 ! c) (g ! c ! j) < d1 ! j)"
    from R have R1: "\<And>v. v < ?n \<Longrightarrow> int v \<notin> set ?u \<Longrightarrow> d1 ! v = d ! v \<and> p1 ! v = p ! v"
      and R4: "\<And>v. v < ?n \<Longrightarrow> d1 ! v \<noteq> Infini \<Longrightarrow> chemin_vers addition g s ?u d1 p1 v"
      by blast+
    show "?E j d1"
    proof (intro impI)
      assume h: "?sd \<and> d ! c \<noteq> Infini \<and> g ! c ! j \<noteq> Infini"
      have dc: "d1 ! c = d ! c" using R1 [OF c(1) cu] by simp
      with h have "d1 ! c \<noteq> Infini" by simp
      from chemin_vers_marche [OF R4 [OF c(1) this]] obtain bp where bp: "marche_simple g s bp"
        "hd bp = c" "poids_retour addition g bp = d1 ! c" "\<forall>x \<in> set bp. d1 ! x \<noteq> Infini"
        by blast
      show "d1 ! j \<noteq> Infini"
      proof (cases "j \<in> set bp")
        case True
        with bp(4) show ?thesis by blast
      next
        case False
        from marche_simple_prolonge [OF bp(1) False j] bp(2) h
        have m: "marche_simple g s (j # bp)" by simp
        from bp(1) obtain r where r: "bp = c # r"
          using bp(2) unfolding marche_simple_def by (cases bp) auto
        have "poids_retour addition g (j # bp) = addition (d1 ! c) (g ! c ! j)"
          using r bp(3) by simp
        moreover have "poids_retour addition g (j # bp) \<noteq> Infini"
          using h m unfolding sans_debordement_def by blast
        ultimately have f: "addition (d1 ! c) (g ! c ! j) \<noteq> Infini" by simp
        from n h have "d1 ! j \<le> addition (d1 ! c) (g ! c ! j)" by simp
        then show ?thesis using f by (rule sous_fini)
      qed
    qed
  qed
  then have R1: "\<And>v. v < ?n \<Longrightarrow> int v \<notin> set ?u \<Longrightarrow> d' ! v = d ! v \<and> p' ! v = p ! v"
    and R2: "\<And>y. y < ?n \<Longrightarrow> int y \<in> set ?u \<Longrightarrow> d ! c \<le> d' ! y"
    and R4: "\<And>v. v < ?n \<Longrightarrow> d' ! v \<noteq> Infini \<Longrightarrow> chemin_vers addition g s ?u d' p' v"
    and R5: "\<And>v. v < ?n \<Longrightarrow> d ! v \<noteq> Infini \<Longrightarrow> d' ! v \<noteq> Infini"
    and E: "\<And>j. j < ?n \<Longrightarrow> ?sd \<Longrightarrow> d ! c \<noteq> Infini \<Longrightarrow> g ! c ! j \<noteq> Infini \<Longrightarrow> d' ! j \<noteq> Infini"
    by blast+
  have "d' ! s = Fin 0" "p' ! s = None"
    using R1 [OF s s_vu] J1 by simp_all
  moreover have "d' ! v \<le> d' ! y" if "v < ?n" "y < ?n" "int v \<notin> set ?u" "int y \<in> set ?u" for v y
  proof -
    have "d' ! v = d ! v" using R1 [OF that(1,3)] by simp
    moreover have "d ! v \<le> d ! c" using avant [OF that(1,3)] .
    moreover have "d ! c \<le> d' ! y" using R2 [OF that(2,4)] .
    ultimately show ?thesis by simp
  qed
  moreover have "d' ! b \<noteq> Infini"
    if h: "?sd" "a < ?n" "b < ?n" "int a \<notin> set ?u" "d' ! a \<noteq> Infini" "g ! a ! b \<noteq> Infini" for a b
  proof -
    have da: "d ! a \<noteq> Infini" using R1 [OF h(2,4)] h(5) by simp
    show ?thesis
    proof (cases "a = c")
      case True
      with E [OF h(3,1)] da h(6) show ?thesis by simp
    next
      case False
      with h(4) su have "int a \<notin> set u" by simp
      from J5 [OF h(1,2,3) this da h(6)] have "d ! b \<noteq> Infini" .
      from R5 [OF h(3) this] show ?thesis .
    qed
  qed
  ultimately show ?thesis
    unfolding inv_dijkstra_def using s_vu R4 by blast
qed

lemma accessible_fini:
  assumes "\<And>a b. a < length g \<Longrightarrow> b < length g \<Longrightarrow> d ! a \<noteq> Infini \<Longrightarrow> g ! a ! b \<noteq> Infini
             \<Longrightarrow> d ! b \<noteq> Infini"
    and "carree g" "d ! s \<noteq> Infini" "accessible g s v"
  shows "d ! v \<noteq> Infini"
  using assms(4) unfolding accessible_def
proof (induction rule: rtranclp_induct)
  case base
  then show ?case by (rule assms(3))
next
  case (step y z)
  from step(2) have y: "y < length g" "z < length (g ! y)" "g ! y ! z \<noteq> Infini"
    by (simp_all add: arete_def)
  have z: "z < length g"
    using carree_ligne [OF assms(2) y(1)] y(2) by simp
  show ?case
    by (rule assms(1) [OF y(1) z step(3) y(3)])
qed




section \<open>Every per-vertex query and its vertex index\<close>

lemma descendants_hors:
  assumes "g \<noteq> []" "s < - int (length g) \<or> int (length g) \<le> s"
  shows "descendants g s = Inl IndexError"
  unfolding descendants_def
  by (subst parcours_desc.simps) (simp add: successeurs_hors [OF assms])

lemma ascendants_hors:
  assumes "carree g" "g \<noteq> []" "s < - int (length g) \<or> int (length g) \<le> s"
  shows "ascendants g s = Inl IndexError"
  unfolding ascendants_def
  by (subst parcours_asc.simps) (simp add: predecesseurs_hors [OF assms])

lemma descendants_negatif:
  assumes "- int (length g) \<le> s" "s < 0"
  shows "descendants g s = descendants g (int (length g) + s)"
proof -
  have "parcours_desc g [s] {} = parcours_desc g [int (length g) + s] {}"
    by (simp add: parcours_desc.simps [of g "[s]" "{}"]
          parcours_desc.simps [of g "[int (length g) + s]" "{}"] successeurs_negatif [OF assms])
  then show ?thesis by (simp add: descendants_def)
qed

lemma ascendants_negatif:
  assumes "carree g" "- int (length g) \<le> s" "s < 0"
  shows "ascendants g s = ascendants g (int (length g) + s)"
proof -
  have "parcours_asc g [s] {} = parcours_asc g [int (length g) + s] {}"
    by (simp add: parcours_asc.simps [of g "[s]" "{}"]
          parcours_asc.simps [of g "[int (length g) + s]" "{}"] predecesseurs_negatif [OF assms])
  then show ?thesis by (simp add: ascendants_def)
qed

lemma dans_bornes:
  assumes "- int (length g) \<le> s" "s < int (length g)"
  obtains k where "k < length g" "s = int k \<or> (s < 0 \<and> int (length g) + s = int k)"
proof (cases "0 \<le> s")
  case True
  with assms show ?thesis by (intro that [of "nat s"]) auto
next
  case False
  with assms show ?thesis by (intro that [of "nat (int (length g) + s)"]) auto
qed

lemma descendants_Inr:
  assumes "carree g" "- int (length g) \<le> s" "s < int (length g)"
  shows "\<exists>D. descendants g s = Inr D"
proof -
  from dans_bornes [OF assms(2,3)] obtain k
    where k: "k < length g" "s = int k \<or> (s < 0 \<and> int (length g) + s = int k)" .
  from parcours_desc_bornes [OF assms(1), of "[int k]" "{}"] k(1)
  have "\<exists>D. descendants g (int k) = Inr D"
    by (auto simp: descendants_def)
  with k(2) descendants_negatif [OF assms(2), of ] show ?thesis
    by auto
qed

lemma ascendants_Inr:
  assumes "carree g" "- int (length g) \<le> s" "s < int (length g)"
  shows "\<exists>A. ascendants g s = Inr A"
proof -
  from dans_bornes [OF assms(2,3)] obtain k
    where k: "k < length g" "s = int k \<or> (s < 0 \<and> int (length g) + s = int k)" .
  from parcours_asc_bornes [OF assms(1), of "[int k]" "{}"] k(1)
  have "\<exists>A. ascendants g (int k) = Inr A"
    by (auto simp: ascendants_def)
  with k(2) ascendants_negatif [OF assms(1,2)] show ?thesis
    by auto
qed

lemma cfc_sommet_Inr:
  assumes "carree g" "- int (length g) \<le> s" "s < int (length g)"
  shows "\<exists>C. cfc_sommet g s = Inr C"
  using descendants_Inr [OF assms] ascendants_Inr [OF assms]
  by (auto simp: cfc_sommet_def)

lemma cfc_sommet_hors:
  assumes "g \<noteq> []" "s < - int (length g) \<or> int (length g) \<le> s"
  shows "cfc_sommet g s = Inl IndexError"
  by (simp add: cfc_sommet_def descendants_hors [OF assms])

lemma cc_sommet_hors:
  assumes "carree g" "g \<noteq> []" "s < - int (length g) \<or> int (length g) \<le> s"
  shows "cc_sommet g s = Inl IndexError"
proof -
  from graphe_symetrique_forme [OF assms(1)] obtain ms where ms: "graphe_symetrique g = Inr ms"
    "forme (length g) ms" by auto
  from forme_carree [OF ms(2)] have l: "length ms = length g" by simp
  then have "ms \<noteq> []" using assms(2) by auto
  from cfc_sommet_hors [OF this, of s] assms(3) l ms(1) show ?thesis
    by (simp add: cc_sommet_def)
qed

lemma cc_sommet_Inr:
  assumes "carree g" "- int (length g) \<le> s" "s < int (length g)"
  shows "\<exists>C. cc_sommet g s = Inr C"
proof -
  from graphe_symetrique_forme [OF assms(1)] obtain ms where ms: "graphe_symetrique g = Inr ms"
    "forme (length g) ms" by auto
  from forme_carree [OF ms(2)] have l: "carree ms" "length ms = length g" by auto
  from cfc_sommet_Inr [OF l(1), of s] assms(2,3) l(2) ms(1) show ?thesis
    by (simp add: cc_sommet_def)
qed

lemma degre_sommet_reseau_successeurs:
  "degre_sommet_reseau r s = res_bind (successeurs (graphe r) s) (\<lambda>l. Inr (length l))"
  by (simp add: degre_sommet_reseau_def successeurs_def)

lemma calculPCCSommet_Inr:
  assumes "carree g" "- int (length g) \<le> s" "s < int (length g)"
  shows "\<exists>d p. calculPCCSommet g s = Inr (d, p)"
proof -
  from dans_bornes [OF assms(2,3)] obtain k
    where k: "k < length g" "s = int k \<or> (s < 0 \<and> int (length g) + s = int k)" .
  from calculPCCSommet_total [OF assms(1) k(1)]
  have "\<exists>d p. calculPCCSommet g (int k) = Inr (d, p)" by blast
  with k(2) calculPCCSommet_negatif [OF assms(2)] show ?thesis
    by auto
qed

lemma proximite_sommet_Inr:
  assumes "carree g" "2 \<le> length g" "- int (length g) \<le> s" "s < int (length g)"
  shows "\<exists>x. proximite_sommet \<lparr>graphe = g, algoPCC = AlgoDijkstra g\<rparr> s = Inr x"
proof -
  from calculPCCSommet_Inr [OF assms(1,3,4)] obtain d p where "calculPCCSommet g s = Inr (d, p)"
    by blast
  moreover have "int (length g) - 1 \<noteq> 0" using assms(2) by simp
  ultimately show ?thesis
    by (simp add: proximite_sommet_def py_diviser_def nb_sommets_def)
qed




section \<open>The seven-vertex example\<close>

text \<open>
  C2: on the seven-vertex graph the distance from vertex 0 to vertex 6 is 4, the degree of
  vertex 3 is 4, the number of edges is 9 and the graph is connected.
\<close>

theorem exemple_sept_sommets:
  "res_bind (calculPCCSommet matrice_exemple 0) (\<lambda>(distances, preds). py_index distances 6) = Inr (Fin 4)
   \<and> degre_sommet matrice_exemple 3 = Inr 4
   \<and> nb_aretes matrice_exemple = Inr 9
   \<and> est_connexe matrice_exemple = Inr True"
proof -
  have a: "calculPCCSommet matrice_exemple 0 =
      Inr ([Fin 0, Fin 1, Fin 2, Fin 1, Fin 2, Fin 3, Fin 4],
           [None, Some 0, Some 1, Some 0, Some 3, Some 4, Some 5])"
    by code_simp
  have b: "degre_sommet matrice_exemple 3 = Inr 4"
    by code_simp
  have c: "nb_aretes matrice_exemple = Inr 9"
    by code_simp
  have d: "est_connexe matrice_exemple = Inr True"
    by code_simp
  have e: "py_index [Fin 0, Fin 1, Fin 2, Fin 1, Fin 2, Fin 3, Fin 4] 6 = Inr (Fin 4)"
    by (simp add: py_index_def)
  show ?thesis
    by (simp add: a b c d e)
qed

end
